theory Spec2Isabelle
  imports Main "HOL-Library.Word" "HOL-Library.AList"
begin

section \<open>The LFU cache of \<open>cache.h\<close>\<close>

text \<open>
  The header defines the eviction strategy \<^verbatim>\<open>LFUCache<Key>\<close> and the container
  \<^verbatim>\<open>Cache<Key, Value, Caching>\<close>, used as \<^verbatim>\<open>Lfucache<Key, Value>\<close>, that is with
  \<^verbatim>\<open>Caching = LFUCache<Key>\<close>. Both are embedded here as state-passing functions: every
  member function takes the object and returns its result together with the object as the
  call leaves it. A C++ exception is the result \<open>Inl e\<close>; the object returned beside it is
  the object as it is when the exception leaves the member function, so what was mutated
  before the throw stays mutated. The mutex only serialises the calls and is not part of
  the state. The logger calls have no effect on the state and are left out.
\<close>

subsection \<open>Errors and machine integers\<close>

text \<open>
  One constructor for each place of the source that throws:
  \<^item> \<open>KeyElementOutOfRange\<close>: \<open>m_key_element.at(key)\<close> in \<open>Remove\<close> and \<open>Increment\<close>
    (\<open>std::out_of_range\<close>);
  \<^item> \<open>NoKeyRegistered\<close>: \<open>std::out_of_range("No Key registered")\<close> in \<open>Replace\<close>;
  \<^item> \<open>EmptyCache\<close>: \<open>std::runtime_error("empty cache")\<close> in \<open>Items\<close>;
  \<^item> \<open>DataOutOfRange\<close>: \<open>m_data.at(k)\<close> in \<open>Read\<close> (\<open>std::out_of_range\<close>);
  \<^item> \<open>InvalidIterator\<close>: an iterator stored in \<open>m_key_element\<close> that refers to no element
    of \<open>m_key_frequence\<close> is dereferenced or erased. C++ leaves this undefined; the model
    makes it an error of its own, and \<open>lfu_inv\<close> below excludes it.
\<close>

datatype error =
    KeyElementOutOfRange
  | NoKeyRegistered
  | EmptyCache
  | DataOutOfRange
  | InvalidIterator

text \<open>\<open>std::size_t\<close> on a 64-bit target: unsigned, wrapping.\<close>

type_synonym size_t = "64 word"

subsection \<open>\<^verbatim>\<open>std::multimap<std::size_t, Key>\<close> with stable iterators\<close>

text \<open>
  An element of the multimap is a node holding the pair \<open>(first, second)\<close>. An iterator is the
  identity of a node (\<open>node_id\<close>), which stays valid until that node is erased. The
  multimap is the list of its nodes in iteration order: ascending in \<open>first\<close>, and among
  equal \<open>first\<close> in order of insertion, since \<open>emplace\<close> puts a new element at the upper bound
  of its equal range.
\<close>

datatype 'k element = Element (node_id: nat) (first: size_t) (second: 'k)

fun emplace :: "'k element \<Rightarrow> 'k element list \<Rightarrow> 'k element list" where
  "emplace e [] = [e]"
| "emplace e (x # xs) = (if first x \<le> first e then x # emplace e xs else e # x # xs)"

definition erase_iter :: "nat \<Rightarrow> 'k element list \<Rightarrow> 'k element list" where
  "erase_iter it xs = filter (\<lambda>x. node_id x \<noteq> it) xs"

definition deref :: "nat \<Rightarrow> 'k element list \<Rightarrow> 'k element option" where
  "deref it xs = find (\<lambda>x. node_id x = it) xs"

subsection \<open>\<^verbatim>\<open>LFUCache<Key>\<close>\<close>

text \<open>
  \<open>m_key_element\<close> is a \<open>std::unordered_map\<close> from keys to iterators. It is an association
  list: \<open>map_of\<close> is \<open>find\<close>/\<open>at\<close>, \<open>AList.update\<close> is the assignment through \<open>operator[]\<close>,
  \<open>AList.delete\<close> is \<open>erase\<close>, and the order of the list is the order in which a range-for
  visits the elements. C++ leaves that order to the implementation, and the standard
  libraries do not visit in the order in which keys were first stored, which is the one the
  model fixes. The order decides only how elements of equal frequency follow each other in
  the multimap after \<open>decay\<close> or \<open>Items\<close>, hence which of several least frequent keys
  \<open>Replace\<close> returns later; no statement below depends on it, and the lemmas about the two
  loops (\<open>decay_loop_ok\<close>, \<open>Items_loop_ok\<close>) hold for every list of the keys.
  \<open>m_next_node\<close> is the identity the next emplaced node gets; it belongs to the model of
  the allocator, not to the class.
\<close>

record 'k LFUCache =
  m_key_frequence :: "'k element list"
  m_key_element :: "('k \<times> nat) list"
  m_decay_counter :: size_t
  m_decay_border :: size_t
  m_next_node :: nat

definition new_LFUCache :: "size_t \<Rightarrow> 'k LFUCache" where
  "new_LFUCache decay_border =
     \<lparr>m_key_frequence = [], m_key_element = [], m_decay_counter = 0,
      m_decay_border = decay_border, m_next_node = 0\<rparr>"

text \<open>
  The range-for of \<open>decay\<close> visits the elements of \<open>m_key_element\<close>; the loop runs over
  their keys, and \<open>elem.second\<close> is the iterator stored under the key when its turn comes.
  The body assigns to the element it visits and neither adds nor erases a key, so the key
  is always found: the first \<open>None\<close> branch only makes the function total.
\<close>

fun decay_loop :: "'k list \<Rightarrow> 'k LFUCache \<Rightarrow> (error + unit) \<times> 'k LFUCache" where
  "decay_loop [] s = (Inr (), s)"
| "decay_loop (key # keys) s =
     (case map_of (m_key_element s) key of
        None \<Rightarrow> (Inl InvalidIterator, s)
      | Some it \<Rightarrow>
          (case deref it (m_key_frequence s) of
             None \<Rightarrow> (Inl InvalidIterator, s)
           | Some e \<Rightarrow>
               decay_loop keys
                 (s\<lparr>m_key_frequence :=
                      emplace (Element (m_next_node s) (first e div 2) (second e))
                        (erase_iter it (m_key_frequence s)),
                    m_key_element := AList.update key (m_next_node s) (m_key_element s),
                    m_next_node := Suc (m_next_node s)\<rparr>)))"

definition decay :: "'k LFUCache \<Rightarrow> (error + unit) \<times> 'k LFUCache" where
  "decay s =
     (case decay_loop (map fst (m_key_element s)) s of
        (Inl e, s') \<Rightarrow> (Inl e, s')
      | (Inr u, s') \<Rightarrow> (Inr (), s'\<lparr>m_decay_counter := 0\<rparr>))"

definition Increment :: "'k \<Rightarrow> 'k LFUCache \<Rightarrow> (error + unit) \<times> 'k LFUCache" where
  "Increment key s =
     (case map_of (m_key_element s) key of
        None \<Rightarrow> (Inl KeyElementOutOfRange, s)
      | Some it \<Rightarrow>
          (case deref it (m_key_frequence s) of
             None \<Rightarrow> (Inl InvalidIterator, s)
           | Some e \<Rightarrow>
               (let s1 = s\<lparr>m_key_frequence :=
                             emplace (Element (m_next_node s) (first e + 1) (second e))
                               (erase_iter it (m_key_frequence s)),
                           m_key_element := AList.update key (m_next_node s) (m_key_element s),
                           m_next_node := Suc (m_next_node s)\<rparr>;
                    s2 = s1\<lparr>m_decay_counter := m_decay_counter s1 + 1\<rparr>
                in if m_decay_border s2 \<le> m_decay_counter s2 then decay s2
                   else (Inr (), s2))))"

definition Insert :: "'k \<Rightarrow> 'k LFUCache \<Rightarrow> (error + unit) \<times> 'k LFUCache" where
  "Insert key s =
     Increment key
       (if map_of (m_key_element s) key = None
        then s\<lparr>m_key_frequence := emplace (Element (m_next_node s) 1 key) (m_key_frequence s),
               m_key_element := AList.update key (m_next_node s) (m_key_element s),
               m_next_node := Suc (m_next_node s)\<rparr>
        else s)"

definition Remove :: "'k \<Rightarrow> 'k LFUCache \<Rightarrow> (error + unit) \<times> 'k LFUCache" where
  "Remove key s =
     (case map_of (m_key_element s) key of
        None \<Rightarrow> (Inl KeyElementOutOfRange, s)
      | Some it \<Rightarrow>
          (case deref it (m_key_frequence s) of
             None \<Rightarrow> (Inl InvalidIterator, s)
           | Some e \<Rightarrow>
               (Inr (), s\<lparr>m_key_frequence := erase_iter it (m_key_frequence s),
                          m_key_element := AList.delete key (m_key_element s),
                          m_decay_counter := m_decay_counter s + 1\<rparr>)))"

definition Replace :: "'k LFUCache \<Rightarrow> (error + 'k) \<times> 'k LFUCache" where
  "Replace s =
     (case m_key_frequence s of
        [] \<Rightarrow> (Inl NoKeyRegistered, s)
      | lowest_freq # rest \<Rightarrow> (Inr (second lowest_freq), s))"

subsection \<open>\<^verbatim>\<open>Cache<Key, Value, LFUCache<Key>>\<close>\<close>

text \<open>
  \<open>m_data\<close> is a \<open>std::unordered_map\<close> as well, modelled like \<open>m_key_element\<close>, with
  the same remark on the order in which \<open>Items\<close> visits it; \<open>m_data.size()\<close> is the
  length of the list.
\<close>

record ('k, 'v) Cache =
  m_max_size :: size_t
  m_cache_algo :: "'k LFUCache"
  m_data :: "('k \<times> 'v) list"

definition new_Cache :: "'k LFUCache \<Rightarrow> size_t \<Rightarrow> ('k, 'v) Cache" where
  "new_Cache cache_algo max_size =
     \<lparr>m_max_size = max_size, m_cache_algo = cache_algo, m_data = []\<rparr>"

definition refresh :: "'k \<Rightarrow> ('k, 'v) Cache \<Rightarrow> (error + unit) \<times> ('k, 'v) Cache" where
  "refresh k c =
     (case Replace (m_cache_algo c) of
        (Inl e, a1) \<Rightarrow> (Inl e, c\<lparr>m_cache_algo := a1\<rparr>)
      | (Inr key, a1) \<Rightarrow>
          (case Remove key a1 of
             (Inl e, a2) \<Rightarrow> (Inl e, c\<lparr>m_cache_algo := a2\<rparr>)
           | (Inr u, a2) \<Rightarrow>
               (case Insert k a2 of
                  (Inl e, a3) \<Rightarrow>
                    (Inl e, c\<lparr>m_cache_algo := a3, m_data := AList.delete key (m_data c)\<rparr>)
                | (Inr u', a3) \<Rightarrow>
                    (Inr (), c\<lparr>m_cache_algo := a3, m_data := AList.delete key (m_data c)\<rparr>))))"

definition Write :: "'k \<Rightarrow> 'v \<Rightarrow> ('k, 'v) Cache \<Rightarrow> (error + unit) \<times> ('k, 'v) Cache" where
  "Write k v c =
     (if unat (m_max_size c) \<le> length (m_data c)
      then (case refresh k c of
              (Inl e, c') \<Rightarrow> (Inl e, c')
            | (Inr u, c') \<Rightarrow> (Inr (), c'\<lparr>m_data := AList.update k v (m_data c')\<rparr>))
      else (case Insert k (m_cache_algo c) of
              (Inl e, a) \<Rightarrow> (Inl e, c\<lparr>m_cache_algo := a\<rparr>)
            | (Inr u, a) \<Rightarrow>
                (Inr (), c\<lparr>m_cache_algo := a, m_data := AList.update k v (m_data c)\<rparr>)))"

definition Read :: "'k \<Rightarrow> ('k, 'v) Cache \<Rightarrow> (error + 'v) \<times> ('k, 'v) Cache" where
  "Read k c =
     (case Increment k (m_cache_algo c) of
        (Inl e, a) \<Rightarrow> (Inl e, c\<lparr>m_cache_algo := a\<rparr>)
      | (Inr u, a) \<Rightarrow>
          (case map_of (m_data c) k of
             None \<Rightarrow> (Inl DataOutOfRange, c\<lparr>m_cache_algo := a\<rparr>)
           | Some v \<Rightarrow> (Inr v, c\<lparr>m_cache_algo := a\<rparr>)))"

definition Contains :: "'k \<Rightarrow> ('k, 'v) Cache \<Rightarrow> bool \<times> ('k, 'v) Cache" where
  "Contains k c = (map_of (m_data c) k \<noteq> None, c)"

fun Items_loop :: "'k list \<Rightarrow> 'k LFUCache \<Rightarrow> (error + unit) \<times> 'k LFUCache" where
  "Items_loop [] a = (Inr (), a)"
| "Items_loop (key # keys) a =
     (case Increment key a of
        (Inl e, a') \<Rightarrow> (Inl e, a')
      | (Inr u, a') \<Rightarrow> Items_loop keys a')"

definition Items :: "('k, 'v) Cache \<Rightarrow> (error + ('k \<times> 'v) list) \<times> ('k, 'v) Cache" where
  "Items c =
     (if m_data c = [] then (Inl EmptyCache, c)
      else (case Items_loop (map fst (m_data c)) (m_cache_algo c) of
              (Inl e, a) \<Rightarrow> (Inl e, c\<lparr>m_cache_algo := a\<rparr>)
            | (Inr u, a) \<Rightarrow> (Inr (m_data c), c\<lparr>m_cache_algo := a\<rparr>)))"

definition Delete :: "'k \<Rightarrow> ('k, 'v) Cache \<Rightarrow> (error + unit) \<times> ('k, 'v) Cache" where
  "Delete k c =
     (if map_of (m_data c) k \<noteq> None
      then (Inr (), c\<lparr>m_data := AList.delete k (m_data c)\<rparr>)
      else (Inr (), c))"

subsection \<open>What the policy tracks\<close>

text \<open>
  The tracked keys are the keys of \<open>m_key_element\<close>; the tracked frequency of a key is the
  \<open>first\<close> of the multimap element its iterator refers to.
\<close>

definition tracked :: "'k LFUCache \<Rightarrow> 'k set" where
  "tracked s = fst ` set (m_key_element s)"

definition frequency :: "'k LFUCache \<Rightarrow> 'k \<Rightarrow> size_t option" where
  "frequency s key =
     (case map_of (m_key_element s) key of
        None \<Rightarrow> None
      | Some it \<Rightarrow> map_option first (deref it (m_key_frequence s)))"

subsection \<open>The invariant of the policy\<close>

text \<open>
  What the class keeps true between calls: the keys of \<open>m_key_element\<close> are unique (it is a
  map), every node of the multimap has its own identity, the multimap is ordered by \<open>first\<close>,
  no node has an identity that is still to be handed out, every element of \<open>m_key_frequence\<close>
  is the one that the entry of its key refers to, and every entry of \<open>m_key_element\<close> holds
  an iterator to an element that carries the entry's key.
\<close>

definition lfu_inv :: "'k LFUCache \<Rightarrow> bool" where
  "lfu_inv s \<longleftrightarrow>
     distinct (map fst (m_key_element s)) \<and>
     distinct (map node_id (m_key_frequence s)) \<and>
     sorted (map first (m_key_frequence s)) \<and>
     (\<forall>e \<in> set (m_key_frequence s). node_id e < m_next_node s) \<and>
     (\<forall>e \<in> set (m_key_frequence s). map_of (m_key_element s) (second e) = Some (node_id e)) \<and>
     (\<forall>(key, it) \<in> set (m_key_element s).
        map_option second (deref it (m_key_frequence s)) = Some key)"

text \<open>
  Two state changes that the member functions share: moving the element of \<open>key\<close> to a new
  frequency (erase, emplace, store the new iterator), as \<open>Increment\<close> and the loop of
  \<open>decay\<close> do, and the first branch of \<open>Insert\<close>. They are used to state lemmas only.
\<close>

definition relocate :: "(size_t \<Rightarrow> size_t) \<Rightarrow> 'k \<Rightarrow> nat \<Rightarrow> 'k element \<Rightarrow> 'k LFUCache \<Rightarrow> 'k LFUCache" where
  "relocate g key it e s =
     s\<lparr>m_key_frequence :=
         emplace (Element (m_next_node s) (g (first e)) (second e))
           (erase_iter it (m_key_frequence s)),
       m_key_element := AList.update key (m_next_node s) (m_key_element s),
       m_next_node := Suc (m_next_node s)\<rparr>"

definition track_new :: "'k \<Rightarrow> 'k LFUCache \<Rightarrow> 'k LFUCache" where
  "track_new key s =
     s\<lparr>m_key_frequence := emplace (Element (m_next_node s) 1 key) (m_key_frequence s),
       m_key_element := AList.update key (m_next_node s) (m_key_element s),
       m_next_node := Suc (m_next_node s)\<rparr>"

text \<open>
  The mutual consistency of the two indexes, counted: for every entry \<open>(key, it)\<close> of
  \<open>m_key_element\<close> the multimap has exactly one element carrying \<open>key\<close>, and it is the
  element \<open>it\<close> refers to (so the frequency read through the iterator is that element's);
  for every element of the multimap \<open>m_key_element\<close> has exactly one entry under the
  element's key, and it holds the iterator to that element.
\<close>

definition index_consistent :: "'k LFUCache \<Rightarrow> bool" where
  "index_consistent s \<longleftrightarrow>
     (\<forall>(key, it) \<in> set (m_key_element s).
        (case filter (\<lambda>x. second x = key) (m_key_frequence s) of
           [e] \<Rightarrow> deref it (m_key_frequence s) = Some e
         | _ \<Rightarrow> False)) \<and>
     (\<forall>e \<in> set (m_key_frequence s).
        filter (\<lambda>(key, it). key = second e) (m_key_element s) = [(second e, node_id e)])"

subsection \<open>Example states\<close>

text \<open>A policy with decay border 100 after \<open>Insert("A")\<close>, \<open>Insert("B")\<close>, \<open>Increment("A")\<close>.\<close>

definition ex_policy :: "string LFUCache" where
  "ex_policy = snd (Increment ''A'' (snd (Insert ''B'' (snd (Insert ''A'' (new_LFUCache 100))))))"

text \<open>
  A policy with decay border 3 after \<open>Insert("A")\<close>, \<open>Insert("B")\<close>, \<open>Remove("B")\<close>: three
  mutating operations (two \<open>Increment\<close>, one \<open>Remove\<close>) since construction, none of which
  decayed.
\<close>

definition decay_due_policy :: "string LFUCache" where
  "decay_due_policy =
     snd (Remove ''B'' (snd (Insert ''B'' (snd (Insert ''A'' (new_LFUCache 3))))))"

subsection \<open>The invariant of the cache, and runs of \<open>Write\<close>\<close>

text \<open>
  \<open>cache_inv\<close>: the policy satisfies its invariant, the keys of \<open>m_data\<close> are unique (it is a
  map), the policy tracks exactly the keys of \<open>m_data\<close>, and \<open>m_data\<close> holds at most
  \<open>m_max_size\<close> entries. \<open>run_writes\<close> calls \<open>Write\<close> for each pair of a list in turn; a call
  that throws leaves the cache as it is at the throw and the run goes on with the next call,
  as a caller that catches the exception would.
\<close>

definition cache_inv :: "('k, 'v) Cache \<Rightarrow> bool" where
  "cache_inv c \<longleftrightarrow>
     lfu_inv (m_cache_algo c) \<and>
     distinct (map fst (m_data c)) \<and>
     set (map fst (m_data c)) = tracked (m_cache_algo c) \<and>
     length (m_data c) \<le> unat (m_max_size c)"

fun run_writes :: "('k \<times> 'v) list \<Rightarrow> ('k, 'v) Cache \<Rightarrow> ('k, 'v) Cache" where
  "run_writes [] c = c"
| "run_writes ((k, v) # ws) c = run_writes ws (snd (Write k v c))"

definition ex_writes :: "(string \<times> int) list" where
  "ex_writes = [(''A'', 1), (''B'', 2), (''C'', 3), (''A'', 4), (''D'', 5)]"

subsection \<open>Example caches\<close>


text \<open>
  The scenario with capacity 2 and decay border 100: the cache after \<open>Write("A", 1)\<close>,
  \<open>Write("B", 2)\<close>, \<open>Read("A")\<close>, and the cache after the \<open>Write("C", 3)\<close> that follows.
\<close>

definition scenario_before :: "(string, int) Cache" where
  "scenario_before =
     snd (Read ''A'' (snd (Write ''B'' 2 (snd (Write ''A'' 1 (new_Cache (new_LFUCache 100) 2))))))"

definition scenario_after :: "(string, int) Cache" where
  "scenario_after = snd (Write ''C'' 3 scenario_before)"

text \<open>A cache of capacity 50 after \<open>Write("A", 1)\<close> and \<open>Delete("A")\<close>.\<close>

definition written_then_deleted :: "size_t \<Rightarrow> (string, int) Cache" where
  "written_then_deleted decay_border =
     snd (Delete ''A'' (snd (Write ''A'' 1 (new_Cache (new_LFUCache decay_border) 50))))"

text \<open>
  A cache of capacity 2 after \<open>Write("A", 1)\<close>, \<open>Write("B", 2)\<close>, \<open>Delete("A")\<close>,
  \<open>Write("C", 3)\<close>, \<open>Write("D", 4)\<close>.
\<close>

definition overfull :: "(string, int) Cache" where
  "overfull = snd (Write ''D'' 4 (snd (Write ''C'' 3 (snd (Delete ''A''
     (snd (Write ''B'' 2 (snd (Write ''A'' 1 (new_Cache (new_LFUCache 100) 2))))))))))"

section \<open>Lemmas about the multimap and the policy\<close>

lemma set_emplace: "set (emplace e xs) = insert e (set xs)"
  by (induction xs) auto

lemma sorted_emplace:
  "sorted (map first xs) \<Longrightarrow> sorted (map first (emplace e xs))"
  by (induction xs) (auto simp: set_emplace)

lemma distinct_emplace:
  "distinct (map node_id xs) \<Longrightarrow> node_id e \<notin> node_id ` set xs \<Longrightarrow>
   distinct (map node_id (emplace e xs))"
  by (induction xs) (auto simp: set_emplace)

lemma set_erase_iter: "set (erase_iter it xs) = {x \<in> set xs. node_id x \<noteq> it}"
  by (simp add: erase_iter_def)

lemma sorted_erase_iter:
  "sorted (map first xs) \<Longrightarrow> sorted (map first (erase_iter it xs))"
  by (induction xs) (auto simp: erase_iter_def)

lemma distinct_erase_iter:
  "distinct (map node_id xs) \<Longrightarrow> distinct (map node_id (erase_iter it xs))"
  by (simp add: erase_iter_def distinct_map_filter)

lemma deref_SomeD: "deref it xs = Some e \<Longrightarrow> e \<in> set xs \<and> node_id e = it"
  by (induction xs) (auto simp: deref_def split: if_splits)

lemma deref_member:
  "distinct (map node_id xs) \<Longrightarrow> e \<in> set xs \<Longrightarrow> deref (node_id e) xs = Some e"
  by (induction xs) (auto simp: deref_def)

lemma deref_emplace:
  "node_id e \<notin> node_id ` set xs \<Longrightarrow>
   deref it (emplace e xs) = (if it = node_id e then Some e else deref it xs)"
  by (induction xs) (auto simp: deref_def)

lemma deref_erase_iter:
  "deref it' (erase_iter it xs) = (if it' = it then None else deref it' xs)"
  by (induction xs) (auto simp: deref_def erase_iter_def)

lemma lfu_inv_lookup:
  assumes "lfu_inv s" "map_of (m_key_element s) key = Some it"
  shows "\<exists>e. deref it (m_key_frequence s) = Some e \<and> second e = key \<and> node_id e = it
             \<and> e \<in> set (m_key_frequence s) \<and> it < m_next_node s"
proof -
  from assms(2) have "(key, it) \<in> set (m_key_element s)" by (rule map_of_SomeD)
  with assms(1) have "map_option second (deref it (m_key_frequence s)) = Some key"
    unfolding lfu_inv_def by blast
  then obtain e where e: "deref it (m_key_frequence s) = Some e" "second e = key" by auto
  from deref_SomeD[OF e(1)] have "e \<in> set (m_key_frequence s)" "node_id e = it" by auto
  moreover with assms(1) have "it < m_next_node s" unfolding lfu_inv_def by blast
  ultimately show ?thesis using e by blast
qed

lemma lfu_inv_element:
  "lfu_inv s \<Longrightarrow> e \<in> set (m_key_frequence s) \<Longrightarrow>
   map_of (m_key_element s) (second e) = Some (node_id e)"
  unfolding lfu_inv_def by blast

lemma relocate_fields [simp]:
  "m_decay_counter (relocate g key it e s) = m_decay_counter s"
  "m_decay_border (relocate g key it e s) = m_decay_border s"
  "m_next_node (relocate g key it e s) = Suc (m_next_node s)"
  "m_key_element (relocate g key it e s) = AList.update key (m_next_node s) (m_key_element s)"
  "m_key_frequence (relocate g key it e s) =
     emplace (Element (m_next_node s) (g (first e)) (second e)) (erase_iter it (m_key_frequence s))"
  by (simp_all add: relocate_def)

lemma deref_relocated:
  assumes "\<forall>x \<in> set xs. node_id x < n"
  shows "deref i (emplace (Element n f k) (erase_iter it xs)) =
         (if i = n then Some (Element n f k) else if i = it then None else deref i xs)"
proof -
  have "node_id (Element n f k) \<notin> node_id ` set (erase_iter it xs)"
    using assms by (auto simp: set_erase_iter)
  then show ?thesis
    by (simp add: deref_emplace deref_erase_iter)
qed

lemma relocate_deref:
  assumes inv: "lfu_inv s"
  shows "deref i (emplace (Element (m_next_node s) f k) (erase_iter it (m_key_frequence s))) =
         (if i = m_next_node s then Some (Element (m_next_node s) f k)
          else if i = it then None else deref i (m_key_frequence s))"
  using inv by (intro deref_relocated) (simp add: lfu_inv_def)

lemma relocate_inv:
  assumes inv: "lfu_inv s"
    and key: "map_of (m_key_element s) key = Some it"
    and e: "deref it (m_key_frequence s) = Some e"
  shows "lfu_inv (relocate g key it e s)"
proof -
  let ?s' = "relocate g key it e s"
  let ?n = "Element (m_next_node s) (g (first e)) (second e)"
  from lfu_inv_lookup[OF inv key] e
  have ek: "second e = key" and eid: "node_id e = it" and emem: "e \<in> set (m_key_frequence s)"
    by auto
  have fresh: "\<forall>x \<in> set (m_key_frequence s). node_id x < m_next_node s"
    using inv unfolding lfu_inv_def by blast
  have d1: "distinct (map fst (m_key_element ?s'))"
    using inv by (simp add: lfu_inv_def distinct_update)
  have notin: "node_id ?n \<notin> node_id ` set (erase_iter it (m_key_frequence s))"
    using fresh by (auto simp: set_erase_iter)
  have d2: "distinct (map node_id (m_key_frequence ?s'))"
    using inv notin by (simp add: lfu_inv_def distinct_emplace distinct_erase_iter)
  have d3: "sorted (map first (m_key_frequence ?s'))"
    using inv by (simp add: lfu_inv_def sorted_emplace sorted_erase_iter)
  have d4: "\<forall>x \<in> set (m_key_frequence ?s'). node_id x < m_next_node ?s'"
    using fresh by (auto simp: set_emplace set_erase_iter less_Suc_eq)
  have d5: "\<forall>x \<in> set (m_key_frequence ?s').
              map_of (m_key_element ?s') (second x) = Some (node_id x)"
  proof
    fix x assume "x \<in> set (m_key_frequence ?s')"
    then consider "x = ?n" | "x \<in> set (m_key_frequence s)" "node_id x \<noteq> it"
      by (auto simp: set_emplace set_erase_iter)
    then show "map_of (m_key_element ?s') (second x) = Some (node_id x)"
    proof cases
      case 1
      then show ?thesis by (simp add: update_conv' ek)
    next
      case 2
      from lfu_inv_element[OF inv 2(1)] have m: "map_of (m_key_element s) (second x) = Some (node_id x)" .
      with key 2(2) have "second x \<noteq> key" by auto
      with m show ?thesis by (simp add: update_conv')
    qed
  qed
  have d6: "map_option second (deref i (m_key_frequence ?s')) = Some k"
    if mem: "(k, i) \<in> set (m_key_element ?s')" for k i
  proof -
    from mem d1 have "map_of (m_key_element ?s') k = Some i" by simp
    then have c: "(k = key \<and> i = m_next_node s) \<or> (k \<noteq> key \<and> map_of (m_key_element s) k = Some i)"
      by (auto simp: update_conv' split: if_splits)
    show "map_option second (deref i (m_key_frequence ?s')) = Some k"
    proof (cases "k = key")
      case True
      with c show ?thesis by (simp add: relocate_deref[OF inv] ek)
    next
      case False
      with c have m: "map_of (m_key_element s) k = Some i" by simp
      from lfu_inv_lookup[OF inv m] obtain x where
        x: "deref i (m_key_frequence s) = Some x" "second x = k" "i < m_next_node s" by blast
      have "i \<noteq> it" using x e False ek by auto
      with x show ?thesis by (simp add: relocate_deref[OF inv])
    qed
  qed
  from d6 have d6': "\<forall>(k, i) \<in> set (m_key_element ?s').
              map_option second (deref i (m_key_frequence ?s')) = Some k" by blast
  show ?thesis unfolding lfu_inv_def using d1 d2 d3 d4 d5 d6' by blast
qed

lemma relocate_frequency:
  assumes inv: "lfu_inv s"
    and key: "map_of (m_key_element s) key = Some it"
    and e: "deref it (m_key_frequence s) = Some e"
  shows "frequency (relocate g key it e s) k =
         (if k = key then Some (g (first e)) else frequency s k)"
proof (cases "k = key")
  case True
  then show ?thesis by (simp add: frequency_def update_conv' relocate_deref[OF inv])
next
  case False
  show ?thesis
  proof (cases "map_of (m_key_element s) k")
    case None
    with False show ?thesis by (simp add: frequency_def update_conv')
  next
    case (Some i)
    from lfu_inv_lookup[OF inv Some] obtain x where
      x: "deref i (m_key_frequence s) = Some x" "second x = k" "i < m_next_node s" by blast
    from lfu_inv_lookup[OF inv key] e have "second e = key" by auto
    then have "i \<noteq> it" using x e False by auto
    with x Some False show ?thesis
      by (simp add: frequency_def update_conv' relocate_deref[OF inv])
  qed
qed

lemma relocate_keys:
  assumes "map_of (m_key_element s) key = Some it"
  shows "map fst (m_key_element (relocate g key it e s)) = map fst (m_key_element s)"
proof -
  from assms have "key \<in> fst ` set (m_key_element s)"
    by (metis domI dom_map_of_conv_image_fst)
  then show ?thesis by (simp add: update_keys)
qed

lemma frequency_eq_None_iff:
  assumes "lfu_inv s"
  shows "frequency s k = None \<longleftrightarrow> k \<notin> tracked s"
proof (cases "map_of (m_key_element s) k")
  case None
  then have "k \<notin> tracked s" by (simp add: tracked_def map_of_eq_None_iff)
  moreover have "frequency s k = None" using None by (simp add: frequency_def)
  ultimately show ?thesis by simp
next
  case (Some i)
  from lfu_inv_lookup[OF assms Some] obtain x where "deref i (m_key_frequence s) = Some x" by blast
  moreover from Some have "k \<in> tracked s"
    unfolding tracked_def by (metis domI dom_map_of_conv_image_fst)
  ultimately show ?thesis using Some by (simp add: frequency_def)
qed

lemma frequency_counter_update [simp]:
  "frequency (s\<lparr>m_decay_counter := c\<rparr>) k = frequency s k"
  by (simp add: frequency_def split: option.splits)

lemma lfu_inv_counter_update [simp]:
  "lfu_inv (s\<lparr>m_decay_counter := c\<rparr>) = lfu_inv s"
  by (simp add: lfu_inv_def)

lemma tracked_counter_update [simp]:
  "tracked (s\<lparr>m_decay_counter := c\<rparr>) = tracked s"
  by (simp add: tracked_def)

lemma tracked_lookup:
  "key \<in> tracked s \<Longrightarrow> \<exists>it. map_of (m_key_element s) key = Some it"
  unfolding tracked_def by (metis not_Some_eq map_of_eq_None_iff)

lemma lookup_tracked:
  "map_of (m_key_element s) key = Some it \<Longrightarrow> key \<in> tracked s"
  unfolding tracked_def by (metis domI dom_map_of_conv_image_fst)

lemma frequency_lookup:
  "map_of (m_key_element s) key = Some it \<Longrightarrow> deref it (m_key_frequence s) = Some e \<Longrightarrow>
   frequency s key = Some (first e)"
  by (simp add: frequency_def)

lemma relocate_tracked:
  "map_of (m_key_element s) key = Some it \<Longrightarrow> tracked (relocate g key it e s) = tracked s"
  using relocate_keys[of s key it g e] by (metis tracked_def list.set_map)

lemma decay_loop_step:
  "map_of (m_key_element s) key = Some it \<Longrightarrow> deref it (m_key_frequence s) = Some e \<Longrightarrow>
   decay_loop (key # keys) s = decay_loop keys (relocate (\<lambda>f. f div 2) key it e s)"
  by (simp add: relocate_def)

lemma decay_loop_ok:
  assumes "lfu_inv s" "set ks \<subseteq> tracked s" "distinct ks"
  shows "\<exists>s'. decay_loop ks s = (Inr (), s') \<and> lfu_inv s'
           \<and> map fst (m_key_element s') = map fst (m_key_element s)
           \<and> m_decay_counter s' = m_decay_counter s
           \<and> m_decay_border s' = m_decay_border s
           \<and> (\<forall>k. frequency s' k =
                 (if k \<in> set ks then map_option (\<lambda>f. f div 2) (frequency s k)
                  else frequency s k))"
  using assms
proof (induction ks arbitrary: s)
  case Nil
  then show ?case by simp
next
  case (Cons key keys)
  from Cons.prems(2) obtain it where it: "map_of (m_key_element s) key = Some it"
    using tracked_lookup by fastforce
  from lfu_inv_lookup[OF Cons.prems(1) it] obtain e where
    e: "deref it (m_key_frequence s) = Some e" by blast
  let ?s1 = "relocate (\<lambda>f. f div 2) key it e s"
  have inv1: "lfu_inv ?s1" by (rule relocate_inv[OF Cons.prems(1) it e])
  have tr1: "set keys \<subseteq> tracked ?s1"
    using Cons.prems(2) by (simp add: relocate_tracked[OF it])
  have dk: "distinct keys" and nk: "key \<notin> set keys" using Cons.prems(3) by auto
  from Cons.IH[OF inv1 tr1 dk] obtain s' where
    s': "decay_loop keys ?s1 = (Inr (), s')" "lfu_inv s'"
        "map fst (m_key_element s') = map fst (m_key_element ?s1)"
        "m_decay_counter s' = m_decay_counter ?s1"
        "m_decay_border s' = m_decay_border ?s1"
        "\<forall>k. frequency s' k =
                 (if k \<in> set keys then map_option (\<lambda>f. f div 2) (frequency ?s1 k)
                  else frequency ?s1 k)"
    by blast
  have f1: "frequency ?s1 k = (if k = key then Some (first e div 2) else frequency s k)" for k
    by (rule relocate_frequency[OF Cons.prems(1) it e])
  have f0: "frequency s key = Some (first e)" by (rule frequency_lookup[OF it e])
  have "decay_loop (key # keys) s = (Inr (), s')"
    using decay_loop_step[OF it e] s'(1) by simp
  moreover have "map fst (m_key_element s') = map fst (m_key_element s)"
    using s'(3) relocate_keys[OF it] by simp
  moreover have "\<forall>k. frequency s' k =
                 (if k \<in> set (key # keys) then map_option (\<lambda>f. f div 2) (frequency s k)
                  else frequency s k)"
    using s'(6) f1 f0 nk by auto
  ultimately show ?case using s'(2,4,5) by simp
qed

lemma decay_ok:
  assumes "lfu_inv s"
  shows "\<exists>s'. decay s = (Inr (), s') \<and> lfu_inv s'
           \<and> map fst (m_key_element s') = map fst (m_key_element s)
           \<and> m_decay_counter s' = 0
           \<and> m_decay_border s' = m_decay_border s
           \<and> (\<forall>k. frequency s' k = map_option (\<lambda>f. f div 2) (frequency s k))"
proof -
  have "set (map fst (m_key_element s)) \<subseteq> tracked s" by (simp add: tracked_def)
  moreover have "distinct (map fst (m_key_element s))" using assms by (simp add: lfu_inv_def)
  ultimately obtain s' where
    s': "decay_loop (map fst (m_key_element s)) s = (Inr (), s')" "lfu_inv s'"
        "map fst (m_key_element s') = map fst (m_key_element s)"
        "m_decay_counter s' = m_decay_counter s"
        "m_decay_border s' = m_decay_border s"
        "\<forall>k. frequency s' k =
                 (if k \<in> set (map fst (m_key_element s))
                  then map_option (\<lambda>f. f div 2) (frequency s k) else frequency s k)"
    using decay_loop_ok[OF assms] by blast
  have fr: "frequency s' k = map_option (\<lambda>f. f div 2) (frequency s k)" for k
  proof (cases "k \<in> tracked s")
    case True
    then show ?thesis using s'(6) by (simp add: tracked_def)
  next
    case False
    then have "frequency s k = None" using frequency_eq_None_iff[OF assms] by simp
    moreover from False have "k \<notin> set (map fst (m_key_element s))" by (simp add: tracked_def)
    ultimately show ?thesis using s'(6) by simp
  qed
  let ?t = "s'\<lparr>m_decay_counter := 0\<rparr>"
  have "decay s = (Inr (), ?t)" using s'(1) by (simp add: decay_def)
  moreover have "lfu_inv ?t" using s'(2) by simp
  moreover have "\<forall>k. frequency ?t k = map_option (\<lambda>f. f div 2) (frequency s k)"
    using fr by simp
  ultimately show ?thesis using s'(3,5) by simp
qed

lemma Increment_untracked:
  "key \<notin> tracked s \<Longrightarrow> Increment key s = (Inl KeyElementOutOfRange, s)"
  by (simp add: Increment_def tracked_def map_of_eq_None_iff[THEN iffD2])

lemma Increment_ok:
  assumes inv: "lfu_inv s" and key: "key \<in> tracked s"
  shows "\<exists>s'. Increment key s = (Inr (), s') \<and> lfu_inv s'
           \<and> map fst (m_key_element s') = map fst (m_key_element s)
           \<and> m_decay_border s' = m_decay_border s
           \<and> (if m_decay_border s \<le> m_decay_counter s + 1
               then m_decay_counter s' = 0 \<and>
                    (\<forall>k. frequency s' k =
                       map_option (\<lambda>f. f div 2)
                         (if k = key then map_option (\<lambda>f. f + 1) (frequency s k)
                          else frequency s k))
               else m_decay_counter s' = m_decay_counter s + 1 \<and>
                    (\<forall>k. frequency s' k =
                       (if k = key then map_option (\<lambda>f. f + 1) (frequency s k)
                        else frequency s k)))"
proof -
  from key obtain it where it: "map_of (m_key_element s) key = Some it"
    using tracked_lookup by fastforce
  from lfu_inv_lookup[OF inv it] obtain e where
    e: "deref it (m_key_frequence s) = Some e" by blast
  let ?s1 = "relocate (\<lambda>f. f + 1) key it e s"
  let ?s2 = "?s1\<lparr>m_decay_counter := m_decay_counter ?s1 + 1\<rparr>"
  have inv1: "lfu_inv ?s1" by (rule relocate_inv[OF inv it e])
  have inv2: "lfu_inv ?s2" using inv1 by simp
  have f0: "frequency s key = Some (first e)" by (rule frequency_lookup[OF it e])
  have f1: "frequency ?s1 k = (if k = key then Some (first e + 1) else frequency s k)" for k
    by (rule relocate_frequency[OF inv it e])
  have f2: "frequency ?s2 k = (if k = key then map_option (\<lambda>f. f + 1) (frequency s k)
                               else frequency s k)" for k
    using f1[of k] f0 by simp
  have k2: "map fst (m_key_element ?s2) = map fst (m_key_element s)"
    using relocate_keys[OF it, of "\<lambda>f. f + 1" e] by simp
  have unfold: "Increment key s =
     (if m_decay_border s \<le> m_decay_counter s + 1 then decay ?s2 else (Inr (), ?s2))"
    using it e by (simp add: Increment_def relocate_def Let_def)
  show ?thesis
  proof (cases "m_decay_border s \<le> m_decay_counter s + 1")
    case True
    from decay_ok[OF inv2] obtain s' where
      s': "decay ?s2 = (Inr (), s')" "lfu_inv s'"
          "map fst (m_key_element s') = map fst (m_key_element ?s2)"
          "m_decay_counter s' = 0" "m_decay_border s' = m_decay_border ?s2"
          "\<forall>k. frequency s' k = map_option (\<lambda>f. f div 2) (frequency ?s2 k)"
      by blast
    have "Increment key s = (Inr (), s')" using unfold True s'(1) by simp
    moreover have "\<forall>k. frequency s' k =
                       map_option (\<lambda>f. f div 2)
                         (if k = key then map_option (\<lambda>f. f + 1) (frequency s k)
                          else frequency s k)"
      using s'(6) f2 by simp
    ultimately show ?thesis using True s'(2,3,4,5) k2 by simp
  next
    case False
    have "Increment key s = (Inr (), ?s2)" using unfold False by simp
    then show ?thesis using False inv2 k2 f2 by simp
  qed
qed

lemma track_new_fields [simp]:
  "m_decay_counter (track_new key s) = m_decay_counter s"
  "m_decay_border (track_new key s) = m_decay_border s"
  by (simp_all add: track_new_def)

lemma deref_emplace_fresh:
  assumes "\<forall>x \<in> set xs. node_id x < n"
  shows "deref i (emplace (Element n f k) xs) =
         (if i = n then Some (Element n f k) else deref i xs)"
proof -
  have "node_id (Element n f k) \<notin> node_id ` set xs" using assms by auto
  then show ?thesis by (simp add: deref_emplace)
qed

lemma track_new_inv:
  assumes inv: "lfu_inv s" and new: "map_of (m_key_element s) key = None"
  shows "lfu_inv (track_new key s)"
proof -
  let ?s' = "track_new key s"
  let ?n = "Element (m_next_node s) 1 key"
  have fresh: "\<forall>x \<in> set (m_key_frequence s). node_id x < m_next_node s"
    using inv unfolding lfu_inv_def by blast
  have mm: "m_key_frequence ?s' = emplace ?n (m_key_frequence s)"
    and kel: "m_key_element ?s' = AList.update key (m_next_node s) (m_key_element s)"
    and nx: "m_next_node ?s' = Suc (m_next_node s)"
    by (simp_all add: track_new_def)
  have d1: "distinct (map fst (m_key_element ?s'))"
    using inv by (simp add: kel lfu_inv_def distinct_update)
  have "node_id ?n \<notin> node_id ` set (m_key_frequence s)" using fresh by auto
  then have d2: "distinct (map node_id (m_key_frequence ?s'))"
    using inv by (simp add: mm lfu_inv_def distinct_emplace)
  have d3: "sorted (map first (m_key_frequence ?s'))"
    using inv by (simp add: mm lfu_inv_def sorted_emplace)
  have d4: "\<forall>x \<in> set (m_key_frequence ?s'). node_id x < m_next_node ?s'"
    using fresh by (auto simp: mm nx set_emplace less_Suc_eq)
  have d5: "\<forall>x \<in> set (m_key_frequence ?s').
              map_of (m_key_element ?s') (second x) = Some (node_id x)"
  proof
    fix x assume "x \<in> set (m_key_frequence ?s')"
    then consider "x = ?n" | "x \<in> set (m_key_frequence s)"
      by (auto simp: mm set_emplace)
    then show "map_of (m_key_element ?s') (second x) = Some (node_id x)"
    proof cases
      case 1
      then show ?thesis by (simp add: kel update_conv')
    next
      case 2
      from lfu_inv_element[OF inv 2] have m: "map_of (m_key_element s) (second x) = Some (node_id x)" .
      with new have "second x \<noteq> key" by auto
      with m show ?thesis by (simp add: kel update_conv')
    qed
  qed
  have d6: "map_option second (deref i (m_key_frequence ?s')) = Some k"
    if mem: "(k, i) \<in> set (m_key_element ?s')" for k i
  proof -
    from mem d1 have "map_of (m_key_element ?s') k = Some i" by simp
    then have c: "(k = key \<and> i = m_next_node s) \<or> (k \<noteq> key \<and> map_of (m_key_element s) k = Some i)"
      by (auto simp: kel update_conv' split: if_splits)
    show ?thesis
    proof (cases "k = key")
      case True
      with c show ?thesis by (simp add: mm deref_emplace_fresh[OF fresh])
    next
      case False
      with c have m: "map_of (m_key_element s) k = Some i" by simp
      from lfu_inv_lookup[OF inv m] obtain x where
        x: "deref i (m_key_frequence s) = Some x" "second x = k" "i < m_next_node s" by blast
      then show ?thesis by (simp add: mm deref_emplace_fresh[OF fresh])
    qed
  qed
  from d6 have d6': "\<forall>(k, i) \<in> set (m_key_element ?s').
              map_option second (deref i (m_key_frequence ?s')) = Some k" by blast
  show ?thesis unfolding lfu_inv_def using d1 d2 d3 d4 d5 d6' by blast
qed

lemma track_new_tracked: "tracked (track_new key s) = insert key (tracked s)"
  by (simp add: tracked_def track_new_def dom_update)

lemma track_new_frequency:
  assumes inv: "lfu_inv s" and new: "map_of (m_key_element s) key = None"
  shows "frequency (track_new key s) k = (if k = key then Some 1 else frequency s k)"
proof -
  have fresh: "\<forall>x \<in> set (m_key_frequence s). node_id x < m_next_node s"
    using inv unfolding lfu_inv_def by blast
  show ?thesis
  proof (cases "k = key")
    case True
    then show ?thesis
      by (simp add: frequency_def track_new_def update_conv' deref_emplace_fresh[OF fresh])
  next
    case False
    show ?thesis
    proof (cases "map_of (m_key_element s) k")
      case None
      with False show ?thesis by (simp add: frequency_def track_new_def update_conv')
    next
      case (Some i)
      from lfu_inv_lookup[OF inv Some] have "i < m_next_node s" by blast
      with Some False show ?thesis
        by (simp add: frequency_def track_new_def update_conv' deref_emplace_fresh[OF fresh])
    qed
  qed
qed

lemma Insert_unfold:
  "Insert key s =
     Increment key (if map_of (m_key_element s) key = None then track_new key s else s)"
  by (simp add: Insert_def track_new_def)

lemma Insert_ok:
  assumes inv: "lfu_inv s"
  shows "\<exists>s'. Insert key s = (Inr (), s') \<and> lfu_inv s'
           \<and> tracked s' = insert key (tracked s)
           \<and> m_decay_border s' = m_decay_border s
           \<and> (if m_decay_border s \<le> m_decay_counter s + 1
               then m_decay_counter s' = 0 \<and>
                    (\<forall>k. frequency s' k =
                       map_option (\<lambda>f. f div 2)
                         (if k = key
                          then Some (case frequency s key of None \<Rightarrow> 2 | Some f \<Rightarrow> f + 1)
                          else frequency s k))
               else m_decay_counter s' = m_decay_counter s + 1 \<and>
                    (\<forall>k. frequency s' k =
                       (if k = key
                        then Some (case frequency s key of None \<Rightarrow> 2 | Some f \<Rightarrow> f + 1)
                        else frequency s k)))"
proof -
  let ?s0 = "if map_of (m_key_element s) key = None then track_new key s else s"
  have inv0: "lfu_inv ?s0" using inv track_new_inv by auto
  have tr0: "tracked ?s0 = insert key (tracked s)"
    using lookup_tracked[of s key] by (auto simp: track_new_tracked)
  have f0: "frequency ?s0 k =
            (if k = key then Some (case frequency s key of None \<Rightarrow> 1 | Some f \<Rightarrow> f)
             else frequency s k)" for k
  proof (cases "map_of (m_key_element s) key")
    case None
    then have "frequency s key = None" by (simp add: frequency_def)
    with None show ?thesis by (simp add: track_new_frequency[OF inv None])
  next
    case (Some it)
    from lfu_inv_lookup[OF inv Some] obtain e where "deref it (m_key_frequence s) = Some e" by blast
    then have "frequency s key = Some (first e)" using Some by (simp add: frequency_def)
    with Some show ?thesis by auto
  qed
  have c0: "m_decay_counter ?s0 = m_decay_counter s" "m_decay_border ?s0 = m_decay_border s"
    by simp_all
  have key0: "key \<in> tracked ?s0" using tr0 by simp
  from Increment_ok[OF inv0 key0] obtain s' where
    s': "Increment key ?s0 = (Inr (), s')" "lfu_inv s'"
        "map fst (m_key_element s') = map fst (m_key_element ?s0)"
        "m_decay_border s' = m_decay_border ?s0"
        "(if m_decay_border ?s0 \<le> m_decay_counter ?s0 + 1
               then m_decay_counter s' = 0 \<and>
                    (\<forall>k. frequency s' k =
                       map_option (\<lambda>f. f div 2)
                         (if k = key then map_option (\<lambda>f. f + 1) (frequency ?s0 k)
                          else frequency ?s0 k))
               else m_decay_counter s' = m_decay_counter ?s0 + 1 \<and>
                    (\<forall>k. frequency s' k =
                       (if k = key then map_option (\<lambda>f. f + 1) (frequency ?s0 k)
                        else frequency ?s0 k)))"
    by blast
  have tr: "tracked s' = insert key (tracked s)"
    using s'(3) tr0 by (metis tracked_def list.set_map)
  have b: "(if k = key then map_option (\<lambda>f. f + 1) (frequency ?s0 k) else frequency ?s0 k) =
           (if k = key then Some (case frequency s key of None \<Rightarrow> 2 | Some f \<Rightarrow> f + 1)
            else frequency s k)" for k
    unfolding f0 by (simp split: option.splits)
  have "Insert key s = (Inr (), s')" using s'(1) by (simp add: Insert_unfold)
  then show ?thesis using s'(2,4,5) tr unfolding b c0 by simp
qed

lemma set_AList_delete: "set (AList.delete k al) = {p \<in> set al. fst p \<noteq> k}"
  by (auto simp: AList.delete_eq)

lemma Remove_untracked:
  "key \<notin> tracked s \<Longrightarrow> Remove key s = (Inl KeyElementOutOfRange, s)"
  by (simp add: Remove_def tracked_def map_of_eq_None_iff[THEN iffD2])

lemma Remove_ok:
  assumes inv: "lfu_inv s" and key: "key \<in> tracked s"
  shows "\<exists>s'. Remove key s = (Inr (), s') \<and> lfu_inv s'
           \<and> tracked s' = tracked s - {key}
           \<and> m_decay_border s' = m_decay_border s
           \<and> m_decay_counter s' = m_decay_counter s + 1
           \<and> (\<forall>k. frequency s' k = (if k = key then None else frequency s k))"
proof -
  from key obtain it where it: "map_of (m_key_element s) key = Some it"
    using tracked_lookup by fastforce
  from lfu_inv_lookup[OF inv it] obtain e where
    e: "deref it (m_key_frequence s) = Some e" and ek: "second e = key" by blast
  let ?s' = "s\<lparr>m_key_frequence := erase_iter it (m_key_frequence s),
               m_key_element := AList.delete key (m_key_element s),
               m_decay_counter := m_decay_counter s + 1\<rparr>"
  have r: "Remove key s = (Inr (), ?s')" using it e by (simp add: Remove_def)
  have d1: "distinct (map fst (m_key_element ?s'))"
    using inv by (simp add: lfu_inv_def distinct_delete)
  have d2: "distinct (map node_id (m_key_frequence ?s'))"
    using inv by (simp add: lfu_inv_def distinct_erase_iter)
  have d3: "sorted (map first (m_key_frequence ?s'))"
    using inv by (simp add: lfu_inv_def sorted_erase_iter)
  have d4: "\<forall>x \<in> set (m_key_frequence ?s'). node_id x < m_next_node ?s'"
    using inv by (auto simp: lfu_inv_def set_erase_iter)
  have d5: "\<forall>x \<in> set (m_key_frequence ?s').
              map_of (m_key_element ?s') (second x) = Some (node_id x)"
  proof
    fix x assume "x \<in> set (m_key_frequence ?s')"
    then have x: "x \<in> set (m_key_frequence s)" "node_id x \<noteq> it"
      by (auto simp: set_erase_iter)
    from lfu_inv_element[OF inv x(1)] have m: "map_of (m_key_element s) (second x) = Some (node_id x)" .
    with it x(2) have "second x \<noteq> key" by auto
    with m show "map_of (m_key_element ?s') (second x) = Some (node_id x)"
      by (simp add: delete_conv')
  qed
  have other: "deref i (m_key_frequence ?s') = deref i (m_key_frequence s)"
    if "map_of (m_key_element s) k = Some i" "k \<noteq> key" for k i
  proof -
    from lfu_inv_lookup[OF inv that(1)] obtain x where
      x: "deref i (m_key_frequence s) = Some x" "second x = k" by blast
    with e ek that(2) have "i \<noteq> it" by auto
    then show ?thesis by (simp add: deref_erase_iter)
  qed
  have d6: "map_option second (deref i (m_key_frequence ?s')) = Some k"
    if mem: "(k, i) \<in> set (m_key_element ?s')" for k i
  proof -
    from mem have k: "k \<noteq> key" "(k, i) \<in> set (m_key_element s)"
      by (auto simp: set_AList_delete)
    with inv have m: "map_of (m_key_element s) k = Some i" by (simp add: lfu_inv_def)
    from lfu_inv_lookup[OF inv m] other[OF m k(1)] show ?thesis by auto
  qed
  from d6 have d6': "\<forall>(k, i) \<in> set (m_key_element ?s').
              map_option second (deref i (m_key_frequence ?s')) = Some k" by blast
  have inv': "lfu_inv ?s'" unfolding lfu_inv_def using d1 d2 d3 d4 d5 d6' by blast
  have tr: "tracked ?s' = tracked s - {key}"
    by (auto simp: tracked_def set_AList_delete)
  have fr: "frequency ?s' k = (if k = key then None else frequency s k)" for k
  proof (cases "k = key")
    case True
    then show ?thesis by (simp add: frequency_def delete_conv')
  next
    case False
    show ?thesis
    proof (cases "map_of (m_key_element s) k")
      case None
      with False show ?thesis by (simp add: frequency_def delete_conv')
    next
      case (Some i)
      from other[OF Some False] Some False show ?thesis
        by (simp add: frequency_def delete_conv')
    qed
  qed
  show ?thesis using r inv' tr fr by simp
qed

lemma lfu_inv_empty_iff:
  assumes inv: "lfu_inv s"
  shows "m_key_frequence s = [] \<longleftrightarrow> tracked s = {}"
proof
  assume "m_key_frequence s = []"
  with inv have "\<forall>(k, i) \<in> set (m_key_element s). False"
    by (auto simp: lfu_inv_def deref_def)
  then have "m_key_element s = []" by (cases "m_key_element s") auto
  then show "tracked s = {}" by (simp add: tracked_def)
next
  assume t: "tracked s = {}"
  show "m_key_frequence s = []"
  proof (rule ccontr)
    assume "m_key_frequence s \<noteq> []"
    then obtain x where "x \<in> set (m_key_frequence s)" by (cases "m_key_frequence s") auto
    from lfu_inv_element[OF inv this] have "second x \<in> tracked s" by (rule lookup_tracked)
    with t show False by simp
  qed
qed

lemma frequency_element:
  assumes inv: "lfu_inv s" and x: "x \<in> set (m_key_frequence s)"
  shows "frequency s (second x) = Some (first x)"
proof -
  have "distinct (map node_id (m_key_frequence s))" using inv by (simp add: lfu_inv_def)
  from deref_member[OF this x] lfu_inv_element[OF inv x] show ?thesis
    by (simp add: frequency_def)
qed

lemma frequency_tracked_element:
  assumes inv: "lfu_inv s" and k: "k \<in> tracked s"
  shows "\<exists>x \<in> set (m_key_frequence s). second x = k \<and> frequency s k = Some (first x)"
proof -
  from k obtain it where it: "map_of (m_key_element s) k = Some it"
    using tracked_lookup by fastforce
  from lfu_inv_lookup[OF inv it] obtain e where
    e: "deref it (m_key_frequence s) = Some e" "second e = k" "e \<in> set (m_key_frequence s)"
    by blast
  with it show ?thesis by (auto simp: frequency_def)
qed

lemma Replace_ok:
  assumes inv: "lfu_inv s" and ne: "tracked s \<noteq> {}"
  shows "\<exists>key f. Replace s = (Inr key, s) \<and> key \<in> tracked s \<and> frequency s key = Some f
            \<and> (\<forall>k \<in> tracked s. \<exists>f'. frequency s k = Some f' \<and> f \<le> f')"
proof -
  from ne lfu_inv_empty_iff[OF inv] obtain x rest where
    mm: "m_key_frequence s = x # rest" by (cases "m_key_frequence s") auto
  then have xm: "x \<in> set (m_key_frequence s)" by simp
  have r: "Replace s = (Inr (second x), s)" by (simp add: Replace_def mm)
  have tr: "second x \<in> tracked s" using lfu_inv_element[OF inv xm] by (rule lookup_tracked)
  have fx: "frequency s (second x) = Some (first x)" by (rule frequency_element[OF inv xm])
  have srt: "sorted (map first (x # rest))" using inv by (simp add: lfu_inv_def mm)
  have "\<exists>f'. frequency s k = Some f' \<and> first x \<le> f'" if "k \<in> tracked s" for k
  proof -
    from frequency_tracked_element[OF inv that] obtain y where
      y: "y \<in> set (x # rest)" "frequency s k = Some (first y)" by (auto simp: mm)
    with srt have "first x \<le> first y" by auto
    with y show ?thesis by simp
  qed
  with r tr fx show ?thesis by blast
qed

lemma Replace_empty:
  assumes inv: "lfu_inv s" and "tracked s = {}"
  shows "Replace s = (Inl NoKeyRegistered, s)"
  using assms lfu_inv_empty_iff[OF inv] by (simp add: Replace_def)

lemma new_LFUCache_inv: "lfu_inv (new_LFUCache b)"
  by (simp add: lfu_inv_def new_LFUCache_def)

lemma distinct_set_singleton:
  assumes "distinct xs" "set xs = {x}"
  shows "xs = [x]"
proof -
  from distinct_card[OF assms(1)] assms(2) have "length xs = 1" by simp
  then obtain y where "xs = [y]" by (cases xs) auto
  with assms(2) show ?thesis by simp
qed

lemma lfu_inv_index_consistent:
  assumes inv: "lfu_inv s"
  shows "index_consistent s"
proof -
  have dk: "distinct (map fst (m_key_element s))" and di: "distinct (map node_id (m_key_frequence s))"
    using inv by (simp_all add: lfu_inv_def)
  have dmm: "distinct (m_key_frequence s)" using di by (simp add: distinct_map)
  have dkel: "distinct (m_key_element s)" using dk by (simp add: distinct_map)
  have a: "case filter (\<lambda>x. second x = key) (m_key_frequence s) of
             [e] \<Rightarrow> deref it (m_key_frequence s) = Some e | _ \<Rightarrow> False"
    if mem: "(key, it) \<in> set (m_key_element s)" for key it
  proof -
    from mem dk have m: "map_of (m_key_element s) key = Some it" by simp
    from lfu_inv_lookup[OF inv m] obtain e where
      e: "deref it (m_key_frequence s) = Some e" "second e = key" "node_id e = it"
         "e \<in> set (m_key_frequence s)" by blast
    have uniq: "x = e" if "x \<in> set (m_key_frequence s)" "second x = key" for x
    proof -
      from lfu_inv_element[OF inv that(1)] that(2) m have "node_id x = it" by simp
      with deref_member[OF di that(1)] e(1) show ?thesis by simp
    qed
    have "set (filter (\<lambda>x. second x = key) (m_key_frequence s)) = {e}"
    proof (intro equalityI subsetI)
      fix x assume "x \<in> set (filter (\<lambda>x. second x = key) (m_key_frequence s))"
      then have "x \<in> set (m_key_frequence s)" "second x = key" by simp_all
      then have "x = e" by (rule uniq)
      then show "x \<in> {e}" by simp
    next
      fix x assume "x \<in> {e}"
      then show "x \<in> set (filter (\<lambda>x. second x = key) (m_key_frequence s))"
        using e(2,4) by simp
    qed
    then have "filter (\<lambda>x. second x = key) (m_key_frequence s) = [e]"
      using dmm by (intro distinct_set_singleton) simp_all
    then show ?thesis using e(1) by simp
  qed
  have b: "filter (\<lambda>(key, it). key = second e) (m_key_element s) = [(second e, node_id e)]"
    if mem: "e \<in> set (m_key_frequence s)" for e
  proof -
    from lfu_inv_element[OF inv mem] have m: "map_of (m_key_element s) (second e) = Some (node_id e)" .
    then have mem': "(second e, node_id e) \<in> set (m_key_element s)" by (rule map_of_SomeD)
    have uniq: "i = node_id e" if "(second e, i) \<in> set (m_key_element s)" for i
      using that dk m by simp
    have "set (filter (\<lambda>(key, it). key = second e) (m_key_element s)) = {(second e, node_id e)}"
    proof (intro equalityI subsetI)
      fix p assume "p \<in> set (filter (\<lambda>(key, it). key = second e) (m_key_element s))"
      then have "p \<in> set (m_key_element s)" "fst p = second e"
        by (simp_all add: case_prod_beta)
      then have "(second e, snd p) \<in> set (m_key_element s)" "fst p = second e"
        by (metis prod.collapse)+
      then show "p \<in> {(second e, node_id e)}" using uniq[of "snd p"] by (cases p) simp
    next
      fix p assume "p \<in> {(second e, node_id e)}"
      then show "p \<in> set (filter (\<lambda>(key, it). key = second e) (m_key_element s))"
        using mem' by simp
    qed
    then show ?thesis using dkel by (intro distinct_set_singleton) simp_all
  qed
  show ?thesis unfolding index_consistent_def using a b by blast
qed

lemma decay_inv: "lfu_inv s \<Longrightarrow> lfu_inv (snd (decay s))"
  using decay_ok[of s] by auto

lemma Increment_inv: "lfu_inv s \<Longrightarrow> lfu_inv (snd (Increment key s))"
  using Increment_ok[of s key] Increment_untracked[of key s] by (cases "key \<in> tracked s") auto

lemma Insert_inv: "lfu_inv s \<Longrightarrow> lfu_inv (snd (Insert key s))"
  using Insert_ok[of s key] by auto

lemma Remove_inv: "lfu_inv s \<Longrightarrow> lfu_inv (snd (Remove key s))"
  using Remove_ok[of s key] Remove_untracked[of key s] by (cases "key \<in> tracked s") auto

section \<open>Lemmas about the cache\<close>

lemma keys_AList_update: "set (map fst (AList.update k v al)) = insert k (set (map fst al))"
  using dom_update[of k v al] by simp

lemma keys_AList_delete: "set (map fst (AList.delete k al)) = set (map fst al) - {k}"
  by (auto simp: set_AList_delete)

lemma length_distinct_keys:
  "distinct (map fst al) \<Longrightarrow> length al = card (set (map fst al))"
  using distinct_card[of "map fst al"] by simp

lemma refresh_empty:
  assumes "lfu_inv (m_cache_algo c)" "tracked (m_cache_algo c) = {}"
  shows "refresh k c = (Inl NoKeyRegistered, c)"
  using Replace_empty[OF assms] by (simp add: refresh_def)

lemma refresh_ok:
  assumes inv: "lfu_inv (m_cache_algo c)" and ne: "tracked (m_cache_algo c) \<noteq> {}"
  shows "\<exists>key a. refresh k c =
            (Inr (), c\<lparr>m_cache_algo := a, m_data := AList.delete key (m_data c)\<rparr>) \<and>
          Replace (m_cache_algo c) = (Inr key, m_cache_algo c) \<and>
          key \<in> tracked (m_cache_algo c) \<and> lfu_inv a \<and>
          tracked a = insert k (tracked (m_cache_algo c) - {key})"
proof -
  from Replace_ok[OF inv ne] obtain key where
    key: "Replace (m_cache_algo c) = (Inr key, m_cache_algo c)" "key \<in> tracked (m_cache_algo c)"
    by blast
  from Remove_ok[OF inv key(2)] obtain a2 where
    a2: "Remove key (m_cache_algo c) = (Inr (), a2)" "lfu_inv a2"
        "tracked a2 = tracked (m_cache_algo c) - {key}" by blast
  from Insert_ok[OF a2(2), of k] obtain a3 where
    a3: "Insert k a2 = (Inr (), a3)" "lfu_inv a3" "tracked a3 = insert k (tracked a2)" by blast
  have "refresh k c = (Inr (), c\<lparr>m_cache_algo := a3, m_data := AList.delete key (m_data c)\<rparr>)"
    using key(1) a2(1) a3(1) by (simp add: refresh_def)
  with key a3 a2(3) show ?thesis by blast
qed

lemma Write_inv:
  assumes inv: "cache_inv c"
  shows "cache_inv (snd (Write k v c))"
proof -
  let ?a = "m_cache_algo c"
  from inv have li: "lfu_inv ?a" and dk: "distinct (map fst (m_data c))"
    and ks: "set (map fst (m_data c)) = tracked ?a"
    and le: "length (m_data c) \<le> unat (m_max_size c)"
    by (simp_all add: cache_inv_def)
  show ?thesis
  proof (cases "unat (m_max_size c) \<le> length (m_data c)")
    case full: True
    show ?thesis
    proof (cases "tracked ?a = {}")
      case True
      then have "Write k v c = (Inl NoKeyRegistered, c)"
        using full refresh_empty[OF li True] by (simp add: Write_def)
      with inv show ?thesis by simp
    next
      case False
      from refresh_ok[OF li False, of k] obtain key a where
        r: "refresh k c = (Inr (), c\<lparr>m_cache_algo := a, m_data := AList.delete key (m_data c)\<rparr>)"
           "key \<in> tracked ?a" "lfu_inv a" "tracked a = insert k (tracked ?a - {key})"
        by blast
      let ?d = "AList.update k v (AList.delete key (m_data c))"
      let ?c' = "c\<lparr>m_cache_algo := a, m_data := ?d\<rparr>"
      have w: "Write k v c = (Inr (), ?c')" using full r(1) by (simp add: Write_def)
      have d': "distinct (map fst ?d)" using dk by (simp add: distinct_update distinct_delete)
      have k': "set (map fst ?d) = tracked a"
        unfolding keys_AList_update keys_AList_delete ks r(4) by simp
      have "card (insert k (tracked ?a - {key})) \<le> card (tracked ?a)"
      proof -
        have fin: "finite (tracked ?a)" by (simp add: tracked_def)
        have "card (insert k (tracked ?a - {key})) \<le> Suc (card (tracked ?a - {key}))"
          using fin by (simp add: card_insert_if)
        also have "\<dots> = card (tracked ?a)"
          by (rule card_Suc_Diff1[OF fin r(2)])
        finally show ?thesis .
      qed
      then have "length ?d \<le> length (m_data c)"
        unfolding length_distinct_keys[OF d'] length_distinct_keys[OF dk] k' ks r(4) .
      with le have l': "length ?d \<le> unat (m_max_size c)" by simp
      show ?thesis unfolding w using r(3) d' k' l' by (simp add: cache_inv_def)
    qed
  next
    case notfull: False
    from Insert_ok[OF li, of k] obtain a where
      a: "Insert k ?a = (Inr (), a)" "lfu_inv a" "tracked a = insert k (tracked ?a)" by blast
    let ?d = "AList.update k v (m_data c)"
    let ?c' = "c\<lparr>m_cache_algo := a, m_data := ?d\<rparr>"
    have w: "Write k v c = (Inr (), ?c')" using notfull a(1) by (simp add: Write_def)
    have d': "distinct (map fst ?d)" using dk by (simp add: distinct_update)
    have k': "set (map fst ?d) = tracked a"
      unfolding keys_AList_update ks a(3) by simp
    have "card (insert k (tracked ?a)) \<le> Suc (card (tracked ?a))"
      by (simp add: card_insert_if tracked_def)
    then have "length ?d \<le> Suc (length (m_data c))"
      unfolding length_distinct_keys[OF d'] length_distinct_keys[OF dk] k' ks a(3) .
    with notfull have l': "length ?d \<le> unat (m_max_size c)" by simp
    show ?thesis unfolding w using a(2) d' k' l' by (simp add: cache_inv_def)
  qed
qed

lemma new_Cache_inv: "cache_inv (new_Cache (new_LFUCache b) n)"
  by (simp add: cache_inv_def new_Cache_def new_LFUCache_inv) (simp add: new_LFUCache_def tracked_def)

lemma run_writes_inv: "cache_inv c \<Longrightarrow> cache_inv (run_writes ws c)"
  by (induction ws arbitrary: c) (auto simp: Write_inv)

lemma Write_max_size: "m_max_size (snd (Write k v c)) = m_max_size c"
  by (simp add: Write_def refresh_def split: prod.splits sum.splits)

lemma run_writes_max_size: "m_max_size (run_writes ws c) = m_max_size c"
  by (induction ws arbitrary: c) (auto simp: Write_max_size)

lemma AList_delete_filter: "AList.delete k al = filter (\<lambda>p. fst p \<noteq> k) al"
  by (induction al) auto

lemma AList_delete_absent: "map_of al k = None \<Longrightarrow> AList.delete k al = al"
  by (simp add: map_of_eq_None_iff)


lemma Write_not_full:
  assumes "\<not> unat (m_max_size c) \<le> length (m_data c)"
    and "Insert k (m_cache_algo c) = (Inr (), a)"
  shows "Write k v c = (Inr (), c\<lparr>m_cache_algo := a, m_data := AList.update k v (m_data c)\<rparr>)"
  using assms by (simp add: Write_def)


lemma Increment_tracked:
  assumes "lfu_inv s" "key \<in> tracked s"
  shows "\<exists>s'. Increment key s = (Inr (), s') \<and> lfu_inv s' \<and> tracked s' = tracked s"
proof -
  from Increment_ok[OF assms] obtain s' where
    s': "Increment key s = (Inr (), s')" "lfu_inv s'"
        "map fst (m_key_element s') = map fst (m_key_element s)" by blast
  from s'(3) have "tracked s' = tracked s" by (metis tracked_def list.set_map)
  with s'(1,2) show ?thesis by blast
qed

lemma Items_loop_no_EmptyCache:
  "lfu_inv a \<Longrightarrow> fst (Items_loop ks a) \<noteq> Inl EmptyCache"
proof (induction ks arbitrary: a)
  case Nil
  then show ?case by simp
next
  case (Cons key keys)
  show ?case
  proof (cases "key \<in> tracked a")
    case True
    from Increment_tracked[OF Cons.prems True] obtain a' where
      a': "Increment key a = (Inr (), a')" "lfu_inv a'" by blast
    with Cons.IH[OF a'(2)] show ?thesis by simp
  next
    case False
    then show ?thesis by (simp add: Increment_untracked)
  qed
qed

lemma Items_loop_ok:
  "lfu_inv a \<Longrightarrow> set ks \<subseteq> tracked a \<Longrightarrow>
   \<exists>a'. Items_loop ks a = (Inr (), a') \<and> lfu_inv a' \<and> tracked a' = tracked a"
proof (induction ks arbitrary: a)
  case Nil
  then show ?case by simp
next
  case (Cons key keys)
  from Cons.prems have k: "key \<in> tracked a" by simp
  from Increment_tracked[OF Cons.prems(1) k] obtain a1 where
    a1: "Increment key a = (Inr (), a1)" "lfu_inv a1" "tracked a1 = tracked a" by blast
  from Cons.prems(2) a1(3) have "set keys \<subseteq> tracked a1" by simp
  from Cons.IH[OF a1(2) this] obtain a' where
    "Items_loop keys a1 = (Inr (), a')" "lfu_inv a'" "tracked a' = tracked a1" by blast
  with a1 show ?case by simp
qed

lemma Items_EmptyCache_iff:
  assumes "lfu_inv (m_cache_algo c)"
  shows "fst (Items c) = Inl EmptyCache \<longleftrightarrow> m_data c = []"
proof (cases "m_data c = []")
  case True
  then show ?thesis by (simp add: Items_def)
next
  case False
  have "fst (Items c) = Inl EmptyCache \<Longrightarrow>
        fst (Items_loop (map fst (m_data c)) (m_cache_algo c)) = Inl EmptyCache"
    using False by (simp add: Items_def split: prod.splits sum.splits)
  with Items_loop_no_EmptyCache[OF assms, of "map fst (m_data c)"] False
  show ?thesis by blast
qed

lemma Items_ok:
  assumes "lfu_inv (m_cache_algo c)" "m_data c \<noteq> []"
    "set (map fst (m_data c)) \<subseteq> tracked (m_cache_algo c)"
  shows "fst (Items c) = Inr (m_data c)"
proof -
  from Items_loop_ok[OF assms(1,3)] obtain a' where
    "Items_loop (map fst (m_data c)) (m_cache_algo c) = (Inr (), a')" by blast
  with assms(2) show ?thesis by (simp add: Items_def)
qed

lemma Read_untracked:
  "k \<notin> tracked (m_cache_algo c) \<Longrightarrow> Read k c = (Inl KeyElementOutOfRange, c)"
  by (simp add: Read_def Increment_untracked)

lemma Read_tracked:
  assumes "lfu_inv (m_cache_algo c)" "k \<in> tracked (m_cache_algo c)"
  shows "\<exists>s'. Increment k (m_cache_algo c) = (Inr (), s') \<and>
           Read k c = ((case map_of (m_data c) k of None \<Rightarrow> Inl DataOutOfRange | Some v \<Rightarrow> Inr v),
                       c\<lparr>m_cache_algo := s'\<rparr>)"
proof -
  from Increment_tracked[OF assms] obtain s' where
    s': "Increment k (m_cache_algo c) = (Inr (), s')" by blast
  then show ?thesis by (auto simp: Read_def split: option.splits)
qed

text \<open>In a cache of positive capacity that satisfies \<open>cache_inv\<close>, \<open>Write\<close> returns and the value is stored.\<close>

lemma Write_returns:
  assumes inv: "cache_inv c" and cap: "0 < unat (m_max_size c)"
  shows "fst (Write k v c) = Inr () \<and> map_of (m_data (snd (Write k v c))) k = Some v"
proof -
  let ?a = "m_cache_algo c"
  from inv have li: "lfu_inv ?a" and dk: "distinct (map fst (m_data c))"
    and ks: "set (map fst (m_data c)) = tracked ?a"
    by (simp_all add: cache_inv_def)
  show ?thesis
  proof (cases "unat (m_max_size c) \<le> length (m_data c)")
    case True
    with cap have "m_data c \<noteq> []" by auto
    then have "set (map fst (m_data c)) \<noteq> {}" by simp
    with ks have ne: "tracked ?a \<noteq> {}" by simp
    from refresh_ok[OF li ne, of k] obtain key a where
      "refresh k c = (Inr (), c\<lparr>m_cache_algo := a, m_data := AList.delete key (m_data c)\<rparr>)"
      by blast
    with True show ?thesis by (simp add: Write_def update_conv')
  next
    case False
    from Insert_ok[OF li, of k] obtain a where "Insert k ?a = (Inr (), a)" by blast
    with False show ?thesis by (simp add: Write_def update_conv')
  qed
qed

lemma Read_absent_tracked:
  assumes inv: "lfu_inv (m_cache_algo c)" and tr: "k \<in> tracked (m_cache_algo c)"
    and absent: "map_of (m_data c) k = None"
  shows "\<exists>s' f. Increment k (m_cache_algo c) = (Inr (), s') \<and>
           Read k c = (Inl DataOutOfRange, c\<lparr>m_cache_algo := s'\<rparr>) \<and>
           frequency (m_cache_algo c) k = Some f \<and>
           (if m_decay_border (m_cache_algo c) \<le> m_decay_counter (m_cache_algo c) + 1
            then frequency s' k = Some ((f + 1) div 2) \<and> m_decay_counter s' = 0
            else frequency s' k = Some (f + 1) \<and>
                 m_decay_counter s' = m_decay_counter (m_cache_algo c) + 1)"
proof -
  let ?a = "m_cache_algo c"
  from Increment_ok[OF inv tr] obtain s' where
    s': "Increment k ?a = (Inr (), s')"
        "(if m_decay_border ?a \<le> m_decay_counter ?a + 1
               then m_decay_counter s' = 0 \<and>
                    (\<forall>k'. frequency s' k' =
                       map_option (\<lambda>f. f div 2)
                         (if k' = k then map_option (\<lambda>f. f + 1) (frequency ?a k')
                          else frequency ?a k'))
               else m_decay_counter s' = m_decay_counter ?a + 1 \<and>
                    (\<forall>k'. frequency s' k' =
                       (if k' = k then map_option (\<lambda>f. f + 1) (frequency ?a k')
                        else frequency ?a k')))"
    by blast
  from frequency_eq_None_iff[OF inv, of k] tr obtain f where f: "frequency ?a k = Some f"
    by auto
  have r: "Read k c = (Inl DataOutOfRange, c\<lparr>m_cache_algo := s'\<rparr>)"
    using s'(1) absent by (simp add: Read_def)
  show ?thesis
  proof (cases "m_decay_border ?a \<le> m_decay_counter ?a + 1")
    case True
    with s'(2) f have "frequency s' k = Some ((f + 1) div 2)" "m_decay_counter s' = 0" by simp_all
    with s'(1) r f True show ?thesis by simp
  next
    case False
    with s'(2) f have "frequency s' k = Some (f + 1)"
      "m_decay_counter s' = m_decay_counter ?a + 1" by simp_all
    with s'(1) r f False show ?thesis by simp
  qed
qed

section \<open>The claims\<close>

text \<open>
  C1. For every sequence of \<open>Write\<close> calls on a cache constructed with a new policy, whatever
  the keys, the values, the decay border and the capacity, \<open>m_data\<close> holds at most
  \<open>m_max_size\<close> entries after the sequence; since every prefix of a sequence is a sequence,
  this is the bound after every single \<open>Write\<close>, whether it returned or threw. (With
  a capacity of 0 every \<open>Write\<close> throws from \<open>Replace\<close>; with a positive capacity every
  \<open>Write\<close> of such a sequence returns, by \<open>Write_returns\<close>.)
\<close>

theorem Write_keeps_store_within_capacity:
  "length (m_data (run_writes ws (new_Cache (new_LFUCache decay_border) max_size)))
     \<le> unat max_size"
proof -
  let ?c = "new_Cache (new_LFUCache decay_border) max_size :: ('a, 'b) Cache"
  have "cache_inv (run_writes ws ?c)" by (rule run_writes_inv[OF new_Cache_inv])
  then have "length (m_data (run_writes ws ?c)) \<le> unat (m_max_size (run_writes ws ?c))"
    by (simp add: cache_inv_def)
  then show ?thesis by (simp add: run_writes_max_size new_Cache_def)
qed

theorem Write_keeps_store_within_capacity_witness:
  "length (m_data (run_writes ex_writes (new_Cache (new_LFUCache 100) 2))) \<le> unat (2 :: size_t)"
  by (rule Write_keeps_store_within_capacity)




text \<open>
  C3. Capacity 2, decay border 100, empty cache: after \<open>Write("A", 1)\<close>,
  \<open>Write("B", 2)\<close>, \<open>Read("A")\<close> the store holds A and B, and the policy nominates B
  (frequency 2 against 3 for A). \<open>Write("C", 3)\<close> then returns, and the store is
  \<open>{A: 1, C: 3}\<close>: B and only B has been evicted; the policy tracks A and C.
\<close>

theorem scenario_evicts_B:
  "m_data scenario_before = [(''A'', 1), (''B'', 2)] \<and>
   frequency (m_cache_algo scenario_before) ''A'' = Some 3 \<and>
   frequency (m_cache_algo scenario_before) ''B'' = Some 2 \<and>
   fst (Replace (m_cache_algo scenario_before)) = Inr ''B'' \<and>
   fst (Write ''C'' 3 scenario_before) = Inr () \<and>
   m_data scenario_after = [(''A'', 1), (''C'', 3)] \<and>
   tracked (m_cache_algo scenario_after) = {''A'', ''C''}"
  by code_simp

text \<open>
  C4, as stated, fails. In \<open>decay_due_policy\<close> exactly \<open>m_decay_border = 3\<close> mutating
  operations have run since construction and \<open>"A"\<close> has frequency 2. Halving before the
  operation's own effect would leave \<open>"A"\<close> at \<open>2 div 2 + 1 = 2\<close> after the next
  \<open>Increment("A")\<close>; the code increments first and halves afterwards, which leaves 1. A
  \<open>Remove\<close> as the next operation halves nothing and resets nothing: the counter goes to 4.
\<close>

theorem decay_counterexample:
  "m_decay_counter decay_due_policy = m_decay_border decay_due_policy \<and>
   frequency decay_due_policy ''A'' = Some 2 \<and>
   frequency (snd (Increment ''A'' decay_due_policy)) ''A'' = Some 1 \<and>
   frequency (snd (Increment ''A'' decay_due_policy)) ''A'' \<noteq> Some (2 div 2 + 1) \<and>
   fst (Remove ''A'' decay_due_policy) = Inr () \<and>
   m_decay_counter (snd (Remove ''A'' decay_due_policy)) = 4"
  by code_simp

text \<open>
  C4, amended. An \<open>Increment\<close> of a tracked key that raises the decay counter to
  \<open>m_decay_border\<close> or above first applies its own effect (the key's frequency plus one) and
  then halves every tracked frequency by integer division and resets the counter to 0; an
  \<open>Increment\<close> that leaves the counter below the border only adds one to the key's frequency
  and to the counter; \<open>Remove\<close> never halves: it untracks the key, leaves the other
  frequencies as they are and adds one to the counter.
\<close>

theorem Increment_applies_then_decays:
  assumes "lfu_inv s" and "key \<in> tracked s"
  shows "(m_decay_border s \<le> m_decay_counter s + 1 \<longrightarrow>
            (\<exists>s'. Increment key s = (Inr (), s') \<and> m_decay_counter s' = 0 \<and>
               (\<forall>k. frequency s' k =
                  map_option (\<lambda>f. f div 2)
                    (if k = key then map_option (\<lambda>f. f + 1) (frequency s k)
                     else frequency s k)))) \<and>
         (\<not> m_decay_border s \<le> m_decay_counter s + 1 \<longrightarrow>
            (\<exists>s'. Increment key s = (Inr (), s') \<and>
               m_decay_counter s' = m_decay_counter s + 1 \<and>
               (\<forall>k. frequency s' k =
                  (if k = key then map_option (\<lambda>f. f + 1) (frequency s k)
                   else frequency s k)))) \<and>
         (\<exists>s'. Remove key s = (Inr (), s') \<and>
               m_decay_counter s' = m_decay_counter s + 1 \<and>
               (\<forall>k. frequency s' k = (if k = key then None else frequency s k)))"
proof -
  from Increment_ok[OF assms] obtain s' where
    s': "Increment key s = (Inr (), s')"
        "(if m_decay_border s \<le> m_decay_counter s + 1
               then m_decay_counter s' = 0 \<and>
                    (\<forall>k. frequency s' k =
                       map_option (\<lambda>f. f div 2)
                         (if k = key then map_option (\<lambda>f. f + 1) (frequency s k)
                          else frequency s k))
               else m_decay_counter s' = m_decay_counter s + 1 \<and>
                    (\<forall>k. frequency s' k =
                       (if k = key then map_option (\<lambda>f. f + 1) (frequency s k)
                        else frequency s k)))"
    by blast
  from Remove_ok[OF assms] obtain t where
    t: "Remove key s = (Inr (), t)" "m_decay_counter t = m_decay_counter s + 1"
       "\<forall>k. frequency t k = (if k = key then None else frequency s k)"
    by blast
  show ?thesis
  proof (cases "m_decay_border s \<le> m_decay_counter s + 1")
    case True
    with s' t show ?thesis by simp
  next
    case False
    with s' t show ?thesis by simp
  qed
qed

theorem Increment_applies_then_decays_witness:
  "lfu_inv decay_due_policy \<and> ''A'' \<in> tracked decay_due_policy \<and>
   m_decay_border decay_due_policy \<le> m_decay_counter decay_due_policy + 1 \<and>
   (\<exists>s'. Increment ''A'' decay_due_policy = (Inr (), s') \<and> m_decay_counter s' = 0 \<and>
      (\<forall>k. frequency s' k =
         map_option (\<lambda>f. f div 2)
           (if k = ''A'' then map_option (\<lambda>f. f + 1) (frequency decay_due_policy k)
            else frequency decay_due_policy k))) \<and>
   lfu_inv ex_policy \<and> ''A'' \<in> tracked ex_policy \<and>
   \<not> m_decay_border ex_policy \<le> m_decay_counter ex_policy + 1 \<and>
   (\<exists>s'. Increment ''A'' ex_policy = (Inr (), s') \<and>
      m_decay_counter s' = m_decay_counter ex_policy + 1 \<and>
      (\<forall>k. frequency s' k =
         (if k = ''A'' then map_option (\<lambda>f. f + 1) (frequency ex_policy k)
          else frequency ex_policy k))) \<and>
   (\<exists>s'. Remove ''A'' ex_policy = (Inr (), s') \<and>
      m_decay_counter s' = m_decay_counter ex_policy + 1 \<and>
      (\<forall>k. frequency s' k = (if k = ''A'' then None else frequency ex_policy k)))"
proof -
  have h: "lfu_inv decay_due_policy" by code_simp
  have t: "''A'' \<in> tracked decay_due_policy" by code_simp
  have d: "m_decay_border decay_due_policy \<le> m_decay_counter decay_due_policy + 1" by code_simp
  have h': "lfu_inv ex_policy" by code_simp
  have t': "''A'' \<in> tracked ex_policy" by code_simp
  have d': "\<not> m_decay_border ex_policy \<le> m_decay_counter ex_policy + 1" by code_simp
  show ?thesis
    using h t d h' t' d' Increment_applies_then_decays [OF h t]
      Increment_applies_then_decays [OF h' t']
    by blast
qed

text \<open>
  C5. \<open>Delete\<close> breaks the agreement between the policy and the store: after
  \<open>Write("A", 1)\<close> and \<open>Delete("A")\<close> the store is empty and the policy still tracks A.
  The eviction in \<open>refresh\<close> calls \<open>m_cache_algo.Remove(key)\<close> beside
  \<open>m_data.erase(key)\<close>; \<open>Delete\<close> only erases. Such a key is later chosen as victim
  although it holds no entry, so that a \<open>Write\<close> to a full cache adds an entry without
  freeing one: \<open>overfull\<close> has capacity 2 and holds 3 entries.
\<close>

theorem Delete_leaves_key_tracked:
  "tracked (m_cache_algo (written_then_deleted 100)) = {''A''} \<and>
   set (map fst (m_data (written_then_deleted 100))) = {} \<and>
   tracked (m_cache_algo (written_then_deleted 100))
     \<noteq> set (map fst (m_data (written_then_deleted 100))) \<and>
   m_max_size overfull = 2 \<and> length (m_data overfull) = 3"
  by code_simp

text \<open>
  C6. \<open>Replace\<close> on a policy that tracks no key throws \<open>std::out_of_range("No Key
  registered")\<close>; on a policy that tracks some key it returns a tracked key whose frequency is
  the least of all tracked frequencies. In both cases the policy is returned as it was: the
  key is still tracked and nothing is modified.
\<close>

theorem Replace_returns_least_frequent:
  assumes "lfu_inv s"
  shows "(tracked s = {} \<longrightarrow> Replace s = (Inl NoKeyRegistered, s)) \<and>
         (tracked s \<noteq> {} \<longrightarrow>
            (\<exists>key f. Replace s = (Inr key, s) \<and> key \<in> tracked s \<and> frequency s key = Some f \<and>
               (\<forall>k \<in> tracked s. \<exists>f'. frequency s k = Some f' \<and> f \<le> f')))"
  using Replace_ok[OF assms] Replace_empty[OF assms] by blast

theorem Replace_returns_least_frequent_witness:
  "lfu_inv ex_policy \<and> tracked ex_policy \<noteq> {} \<and>
   (\<exists>key f. Replace ex_policy = (Inr key, ex_policy) \<and> key \<in> tracked ex_policy \<and>
      frequency ex_policy key = Some f \<and>
      (\<forall>k \<in> tracked ex_policy. \<exists>f'. frequency ex_policy k = Some f' \<and> f \<le> f')) \<and>
   lfu_inv (new_LFUCache 100 :: string LFUCache) \<and>
   tracked (new_LFUCache 100 :: string LFUCache) = {} \<and>
   Replace (new_LFUCache 100 :: string LFUCache) = (Inl NoKeyRegistered, new_LFUCache 100)"
proof -
  have h: "lfu_inv ex_policy" by code_simp
  have n: "tracked ex_policy \<noteq> {}" by code_simp
  have h': "lfu_inv (new_LFUCache 100 :: string LFUCache)" by code_simp
  have n': "tracked (new_LFUCache 100 :: string LFUCache) = {}" by code_simp
  show ?thesis
    using h n h' n' Replace_returns_least_frequent [OF h] Replace_returns_least_frequent [OF h']
    by simp
qed

text \<open>
  C7, as stated, fails in its last part. \<open>Read\<close> calls \<open>m_cache_algo.Increment(k)\<close>
  before \<open>m_data.at(k)\<close>. For a key that was never written the exception comes from
  \<open>m_key_element.at(key)\<close> inside \<open>Increment\<close>, not from the lookup in the backing
  store, and the cache is left untouched.
\<close>

theorem Read_missing_key_counterexample:
  "Read ''A'' (new_Cache (new_LFUCache 100) 50 :: (string, int) Cache)
     = (Inl KeyElementOutOfRange, new_Cache (new_LFUCache 100) 50)"
  by code_simp

text \<open>
  C7, amended. In every state that satisfies the invariant of the policy:
  \<open>Remove\<close> and \<open>Increment\<close> throw the lookup error of \<open>m_key_element.at\<close>, leaving the
  policy as it was, exactly when the key is untracked, and return otherwise;
  \<open>Items\<close> throws the empty-cache error exactly when the store is empty, and returns a copy of
  the store when the store is not empty and all its keys are tracked; \<open>Read\<close> of an
  untracked key throws the lookup error of the policy and leaves the cache as it was,
  \<open>Read\<close> of a key that is tracked but absent from the store throws the lookup error of
  \<open>m_data.at\<close>, and \<open>Read\<close> of a tracked key present in the store returns its value.
\<close>

theorem failures_raised_where_the_code_throws:
  assumes "lfu_inv s" and "lfu_inv (m_cache_algo c)"
  shows "(key \<notin> tracked s \<longrightarrow>
            Remove key s = (Inl KeyElementOutOfRange, s) \<and>
            Increment key s = (Inl KeyElementOutOfRange, s)) \<and>
         (key \<in> tracked s \<longrightarrow> fst (Remove key s) = Inr () \<and> fst (Increment key s) = Inr ()) \<and>
         (fst (Items c) = Inl EmptyCache \<longleftrightarrow> m_data c = []) \<and>
         (m_data c \<noteq> [] \<and> set (map fst (m_data c)) \<subseteq> tracked (m_cache_algo c) \<longrightarrow>
            fst (Items c) = Inr (m_data c)) \<and>
         (k \<notin> tracked (m_cache_algo c) \<longrightarrow> Read k c = (Inl KeyElementOutOfRange, c)) \<and>
         (k \<in> tracked (m_cache_algo c) \<and> map_of (m_data c) k = None \<longrightarrow>
            fst (Read k c) = Inl DataOutOfRange) \<and>
         (\<forall>v. k \<in> tracked (m_cache_algo c) \<and> map_of (m_data c) k = Some v \<longrightarrow>
            fst (Read k c) = Inr v)"
proof (intro conjI impI allI)
  assume "key \<notin> tracked s"
  then show "Remove key s = (Inl KeyElementOutOfRange, s)" by (rule Remove_untracked)
next
  assume "key \<notin> tracked s"
  then show "Increment key s = (Inl KeyElementOutOfRange, s)" by (rule Increment_untracked)
next
  assume "key \<in> tracked s"
  with Remove_ok[OF assms(1)] show "fst (Remove key s) = Inr ()" by fastforce
next
  assume "key \<in> tracked s"
  with Increment_tracked[OF assms(1)] show "fst (Increment key s) = Inr ()" by fastforce
next
  show "fst (Items c) = Inl EmptyCache \<longleftrightarrow> m_data c = []"
    by (rule Items_EmptyCache_iff[OF assms(2)])
next
  assume "m_data c \<noteq> [] \<and> set (map fst (m_data c)) \<subseteq> tracked (m_cache_algo c)"
  then show "fst (Items c) = Inr (m_data c)" using Items_ok[OF assms(2)] by blast
next
  assume "k \<notin> tracked (m_cache_algo c)"
  then show "Read k c = (Inl KeyElementOutOfRange, c)" by (rule Read_untracked)
next
  assume a: "k \<in> tracked (m_cache_algo c) \<and> map_of (m_data c) k = None"
  with Read_tracked[OF assms(2), of k] show "fst (Read k c) = Inl DataOutOfRange" by auto
next
  fix v assume a: "k \<in> tracked (m_cache_algo c) \<and> map_of (m_data c) k = Some v"
  with Read_tracked[OF assms(2), of k] show "fst (Read k c) = Inr v" by auto
qed

theorem failures_raised_where_the_code_throws_witness:
  "lfu_inv ex_policy \<and> lfu_inv (m_cache_algo (written_then_deleted 100)) \<and>
   ''Z'' \<notin> tracked ex_policy \<and>
   Remove ''Z'' ex_policy = (Inl KeyElementOutOfRange, ex_policy) \<and>
   Increment ''Z'' ex_policy = (Inl KeyElementOutOfRange, ex_policy) \<and>
   m_data (written_then_deleted 100) = [] \<and>
   fst (Items (written_then_deleted 100)) = Inl EmptyCache \<and>
   ''B'' \<notin> tracked (m_cache_algo (written_then_deleted 100)) \<and>
   Read ''B'' (written_then_deleted 100) = (Inl KeyElementOutOfRange, written_then_deleted 100) \<and>
   ''A'' \<in> tracked (m_cache_algo (written_then_deleted 100)) \<and>
   map_of (m_data (written_then_deleted 100)) ''A'' = None \<and>
   fst (Read ''A'' (written_then_deleted 100)) = Inl DataOutOfRange \<and>
   lfu_inv (m_cache_algo scenario_after) \<and> ''A'' \<in> tracked ex_policy \<and>
   fst (Remove ''A'' ex_policy) = Inr () \<and> fst (Increment ''A'' ex_policy) = Inr () \<and>
   m_data scenario_after \<noteq> [] \<and>
   set (map fst (m_data scenario_after)) \<subseteq> tracked (m_cache_algo scenario_after) \<and>
   fst (Items scenario_after) = Inr (m_data scenario_after) \<and>
   ''C'' \<in> tracked (m_cache_algo scenario_after) \<and>
   map_of (m_data scenario_after) ''C'' = Some 3 \<and>
   fst (Read ''C'' scenario_after) = Inr 3"
proof -
  have h1: "lfu_inv ex_policy" by code_simp
  have h2: "lfu_inv (m_cache_algo (written_then_deleted 100))" by code_simp
  have h3: "lfu_inv (m_cache_algo scenario_after)" by code_simp
  have a: "''Z'' \<notin> tracked ex_policy" "m_data (written_then_deleted 100) = []"
    "''B'' \<notin> tracked (m_cache_algo (written_then_deleted 100))"
    by code_simp+
  have b: "''A'' \<in> tracked (m_cache_algo (written_then_deleted 100))"
    "map_of (m_data (written_then_deleted 100)) ''A'' = None"
    "''A'' \<in> tracked ex_policy"
    by code_simp+
  have c: "m_data scenario_after \<noteq> []"
    "set (map fst (m_data scenario_after)) \<subseteq> tracked (m_cache_algo scenario_after)"
    "''C'' \<in> tracked (m_cache_algo scenario_after)"
    "map_of (m_data scenario_after) ''C'' = Some 3"
    by code_simp+
  note t1 = failures_raised_where_the_code_throws
    [OF h1 h2, of "''Z''" "''B''"]
  note t2 = failures_raised_where_the_code_throws
    [OF h1 h2, of "''A''" "''A''"]
  note t3 = failures_raised_where_the_code_throws
    [OF h1 h3, of "''A''" "''C''"]
  have r1: "Remove ''Z'' ex_policy = (Inl KeyElementOutOfRange, ex_policy)"
    "Increment ''Z'' ex_policy = (Inl KeyElementOutOfRange, ex_policy)"
    "fst (Items (written_then_deleted 100)) = Inl EmptyCache"
    "Read ''B'' (written_then_deleted 100) = (Inl KeyElementOutOfRange, written_then_deleted 100)"
    using t1 a by blast+
  have r2: "fst (Read ''A'' (written_then_deleted 100)) = Inl DataOutOfRange"
    "fst (Remove ''A'' ex_policy) = Inr ()" "fst (Increment ''A'' ex_policy) = Inr ()"
    using t2 b by blast+
  have r3: "fst (Items scenario_after) = Inr (m_data scenario_after)"
    "fst (Read ''C'' scenario_after) = Inr 3"
    using t3 c by blast+
  show ?thesis using h1 h2 h3 a b c r1 r2 r3 by blast
qed

text \<open>
  C8. \<open>Delete(k)\<close> never throws. It leaves \<open>m_cache_algo\<close> (multimap, key map, decay
  counter and border) and \<open>m_max_size\<close> as they were; the store afterwards is the store
  before without the entry of \<open>k\<close>, every other entry unchanged and in place; when \<open>k\<close>
  has no entry the whole cache is unchanged.
\<close>

theorem Delete_only_touches_the_store:
  "fst (Delete k c) = Inr () \<and>
   m_cache_algo (snd (Delete k c)) = m_cache_algo c \<and>
   m_max_size (snd (Delete k c)) = m_max_size c \<and>
   m_data (snd (Delete k c)) = filter (\<lambda>p. fst p \<noteq> k) (m_data c) \<and>
   map_of (m_data (snd (Delete k c))) = (map_of (m_data c))(k := None) \<and>
   (map_of (m_data c) k = None \<longrightarrow> snd (Delete k c) = c)"
proof (cases "map_of (m_data c) k")
  case None
  then have d: "Delete k c = (Inr (), c)" by (simp add: Delete_def)
  from None have "AList.delete k (m_data c) = m_data c" by (rule AList_delete_absent)
  then have "filter (\<lambda>p. fst p \<noteq> k) (m_data c) = m_data c"
    by (simp add: AList_delete_filter)
  moreover have "(map_of (m_data c))(k := None) = map_of (m_data c)"
    using None by (simp add: fun_upd_idem)
  ultimately show ?thesis unfolding d by simp
next
  case (Some v)
  then have d: "Delete k c = (Inr (), c\<lparr>m_data := AList.delete k (m_data c)\<rparr>)"
    by (simp add: Delete_def)
  show ?thesis unfolding d using Some
    by (simp add: delete_conv' AList_delete_filter[symmetric])
qed

theorem Delete_only_touches_the_store_witness:
  "map_of (m_data scenario_after) ''B'' = None \<and>
   snd (Delete ''B'' scenario_after) = scenario_after \<and>
   fst (Delete ''B'' scenario_after) = Inr () \<and>
   m_cache_algo (snd (Delete ''A'' scenario_after)) = m_cache_algo scenario_after \<and>
   m_data (snd (Delete ''A'' scenario_after)) = [(''C'', 3)]"
proof -
  have h: "map_of (m_data scenario_after) ''B'' = None" by code_simp
  have d: "filter (\<lambda>p. fst p \<noteq> ''A'') (m_data scenario_after) = [(''C'', 3)]" by code_simp
  show ?thesis
    using h d Delete_only_touches_the_store [of "''B''" scenario_after]
      Delete_only_touches_the_store [of "''A''" scenario_after]
    by simp
qed

text \<open>
  C9. Every operation of the policy (\<open>Insert\<close>, \<open>Remove\<close>, \<open>Increment\<close> and the
  private \<open>decay\<close>) keeps the two indexes mutually consistent: started in a state that
  satisfies the invariant of the policy, each of them ends, whether it returns or throws,
  in a state that satisfies it again, and in which every key of \<open>m_key_element\<close> has exactly
  one element of \<open>m_key_frequence\<close> (the one its iterator refers to, hence with the same
  frequency) and every element of \<open>m_key_frequence\<close> has exactly one entry of
  \<open>m_key_element\<close>. The invariant holds for a newly constructed policy
  (\<open>new_LFUCache_inv\<close>).
\<close>

theorem lfu_operations_keep_indexes_consistent:
  assumes "lfu_inv s"
  shows "lfu_inv (snd (Insert key s)) \<and> index_consistent (snd (Insert key s)) \<and>
         lfu_inv (snd (Remove key s)) \<and> index_consistent (snd (Remove key s)) \<and>
         lfu_inv (snd (Increment key s)) \<and> index_consistent (snd (Increment key s)) \<and>
         lfu_inv (snd (decay s)) \<and> index_consistent (snd (decay s))"
  using assms
  by (simp add: Insert_inv Remove_inv Increment_inv decay_inv lfu_inv_index_consistent)

theorem lfu_operations_keep_indexes_consistent_witness:
  "lfu_inv ex_policy \<and>
   lfu_inv (snd (Insert ''C'' ex_policy)) \<and> index_consistent (snd (Insert ''C'' ex_policy)) \<and>
   lfu_inv (snd (Remove ''C'' ex_policy)) \<and> index_consistent (snd (Remove ''C'' ex_policy)) \<and>
   lfu_inv (snd (Increment ''C'' ex_policy)) \<and> index_consistent (snd (Increment ''C'' ex_policy)) \<and>
   lfu_inv (snd (decay ex_policy)) \<and> index_consistent (snd (decay ex_policy))"
proof -
  have h: "lfu_inv ex_policy" by code_simp
  show ?thesis using h lfu_operations_keep_indexes_consistent [OF h, of "''C''"] by simp
qed

text \<open>
  C10, as stated, fails, in two ways. With decay border 2, after \<open>Write("A", 1)\<close> and
  \<open>Delete("A")\<close> the key has frequency 2 and the decay counter is 1. \<open>Read("A")\<close> throws
  from \<open>m_data.at\<close>; the \<open>Increment\<close> that ran before it reached the decay border, so
  the frequency the caller finds is 1, not 3, and the counter is 0, not 2. And a deleted
  key does not stay tracked for ever: in \<open>overfull\<close> the key A was deleted and not written
  again, and the \<open>Write("D", 4)\<close> that followed took it as victim, so the policy no longer
  tracks it; \<open>Read("A")\<close> then throws from \<open>m_key_element.at\<close> inside \<open>Increment\<close> and
  leaves the cache as it was, nothing incremented.
\<close>

theorem Read_after_Delete_counterexample:
  "fst (Read ''A'' (written_then_deleted 2)) = Inl DataOutOfRange \<and>
   frequency (m_cache_algo (written_then_deleted 2)) ''A'' = Some 2 \<and>
   frequency (m_cache_algo (snd (Read ''A'' (written_then_deleted 2)))) ''A'' = Some 1 \<and>
   m_decay_counter (m_cache_algo (written_then_deleted 2)) = 1 \<and>
   m_decay_counter (m_cache_algo (snd (Read ''A'' (written_then_deleted 2)))) = 0 \<and>
   map_of (m_data overfull) ''A'' = None \<and>
   ''A'' \<notin> tracked (m_cache_algo overfull) \<and>
   Read ''A'' overfull = (Inl KeyElementOutOfRange, overfull)"
  by code_simp

text \<open>
  C10, amended. Let a key have no entry in the store (a key deleted and not written again).
  While the policy still tracks it, \<open>Read\<close> throws the lookup error of \<open>m_data.at\<close>,
  and the cache the caller is left with is the cache before with \<open>Increment(key)\<close> run to
  its end on the policy: below the decay border the key's frequency is one higher and the
  decay counter one higher; when that \<open>Increment\<close> reaches the decay border the frequency
  is \<open>(f + 1) div 2\<close> and the counter is 0. Once the policy no longer tracks it (a later
  \<open>Write\<close> evicted it), \<open>Read\<close> throws the lookup error of \<open>m_key_element.at\<close> and
  the cache is unchanged.
\<close>

theorem Read_of_deleted_key:
  assumes inv: "lfu_inv (m_cache_algo c)" and absent: "map_of (m_data c) k = None"
  shows "(k \<in> tracked (m_cache_algo c) \<longrightarrow>
           (\<exists>s' f. Increment k (m_cache_algo c) = (Inr (), s') \<and>
              Read k c = (Inl DataOutOfRange, c\<lparr>m_cache_algo := s'\<rparr>) \<and>
              frequency (m_cache_algo c) k = Some f \<and>
              (if m_decay_border (m_cache_algo c) \<le> m_decay_counter (m_cache_algo c) + 1
               then frequency s' k = Some ((f + 1) div 2) \<and> m_decay_counter s' = 0
               else frequency s' k = Some (f + 1) \<and>
                    m_decay_counter s' = m_decay_counter (m_cache_algo c) + 1))) \<and>
         (k \<notin> tracked (m_cache_algo c) \<longrightarrow> Read k c = (Inl KeyElementOutOfRange, c))"
proof (intro conjI impI)
  assume "k \<in> tracked (m_cache_algo c)"
  then show "\<exists>s' f. Increment k (m_cache_algo c) = (Inr (), s') \<and>
              Read k c = (Inl DataOutOfRange, c\<lparr>m_cache_algo := s'\<rparr>) \<and>
              frequency (m_cache_algo c) k = Some f \<and>
              (if m_decay_border (m_cache_algo c) \<le> m_decay_counter (m_cache_algo c) + 1
               then frequency s' k = Some ((f + 1) div 2) \<and> m_decay_counter s' = 0
               else frequency s' k = Some (f + 1) \<and>
                    m_decay_counter s' = m_decay_counter (m_cache_algo c) + 1)"
    using Read_absent_tracked[OF inv _ absent] by blast
next
  assume "k \<notin> tracked (m_cache_algo c)"
  then show "Read k c = (Inl KeyElementOutOfRange, c)" by (rule Read_untracked)
qed

theorem Read_of_deleted_key_witness:
  "lfu_inv (m_cache_algo (written_then_deleted 100)) \<and>
   map_of (m_data (written_then_deleted 100)) ''A'' = None \<and>
   ''A'' \<in> tracked (m_cache_algo (written_then_deleted 100)) \<and>
   \<not> m_decay_border (m_cache_algo (written_then_deleted 100))
         \<le> m_decay_counter (m_cache_algo (written_then_deleted 100)) + 1 \<and>
   (\<exists>s' f. Increment ''A'' (m_cache_algo (written_then_deleted 100)) = (Inr (), s') \<and>
      Read ''A'' (written_then_deleted 100)
        = (Inl DataOutOfRange, (written_then_deleted 100)\<lparr>m_cache_algo := s'\<rparr>) \<and>
      frequency (m_cache_algo (written_then_deleted 100)) ''A'' = Some f \<and>
      frequency s' ''A'' = Some (f + 1) \<and>
      m_decay_counter s' = m_decay_counter (m_cache_algo (written_then_deleted 100)) + 1) \<and>
   lfu_inv (m_cache_algo (written_then_deleted 2)) \<and>
   map_of (m_data (written_then_deleted 2)) ''A'' = None \<and>
   ''A'' \<in> tracked (m_cache_algo (written_then_deleted 2)) \<and>
   m_decay_border (m_cache_algo (written_then_deleted 2))
         \<le> m_decay_counter (m_cache_algo (written_then_deleted 2)) + 1 \<and>
   (\<exists>s' f. Increment ''A'' (m_cache_algo (written_then_deleted 2)) = (Inr (), s') \<and>
      Read ''A'' (written_then_deleted 2)
        = (Inl DataOutOfRange, (written_then_deleted 2)\<lparr>m_cache_algo := s'\<rparr>) \<and>
      frequency (m_cache_algo (written_then_deleted 2)) ''A'' = Some f \<and>
      frequency s' ''A'' = Some ((f + 1) div 2) \<and> m_decay_counter s' = 0) \<and>
   lfu_inv (m_cache_algo overfull) \<and>
   map_of (m_data overfull) ''A'' = None \<and>
   ''A'' \<notin> tracked (m_cache_algo overfull) \<and>
   Read ''A'' overfull = (Inl KeyElementOutOfRange, overfull)"
proof -
  have h1: "lfu_inv (m_cache_algo (written_then_deleted 100))" by code_simp
  have h2: "''A'' \<in> tracked (m_cache_algo (written_then_deleted 100))" by code_simp
  have h3: "map_of (m_data (written_then_deleted 100)) ''A'' = None" by code_simp
  have h4: "\<not> m_decay_border (m_cache_algo (written_then_deleted 100))
         \<le> m_decay_counter (m_cache_algo (written_then_deleted 100)) + 1" by code_simp
  have g1: "lfu_inv (m_cache_algo (written_then_deleted 2))" by code_simp
  have g2: "''A'' \<in> tracked (m_cache_algo (written_then_deleted 2))" by code_simp
  have g3: "map_of (m_data (written_then_deleted 2)) ''A'' = None" by code_simp
  have g4: "m_decay_border (m_cache_algo (written_then_deleted 2))
         \<le> m_decay_counter (m_cache_algo (written_then_deleted 2)) + 1" by code_simp
  have e1: "lfu_inv (m_cache_algo overfull)" by code_simp
  have e2: "''A'' \<notin> tracked (m_cache_algo overfull)" by code_simp
  have e3: "map_of (m_data overfull) ''A'' = None" by code_simp
  from Read_of_deleted_key [OF h1 h3] h2 h4
  have a: "\<exists>s' f. Increment ''A'' (m_cache_algo (written_then_deleted 100)) = (Inr (), s') \<and>
      Read ''A'' (written_then_deleted 100)
        = (Inl DataOutOfRange, (written_then_deleted 100)\<lparr>m_cache_algo := s'\<rparr>) \<and>
      frequency (m_cache_algo (written_then_deleted 100)) ''A'' = Some f \<and>
      frequency s' ''A'' = Some (f + 1) \<and>
      m_decay_counter s' = m_decay_counter (m_cache_algo (written_then_deleted 100)) + 1"
    by simp
  from Read_of_deleted_key [OF g1 g3] g2 g4
  have b: "\<exists>s' f. Increment ''A'' (m_cache_algo (written_then_deleted 2)) = (Inr (), s') \<and>
      Read ''A'' (written_then_deleted 2)
        = (Inl DataOutOfRange, (written_then_deleted 2)\<lparr>m_cache_algo := s'\<rparr>) \<and>
      frequency (m_cache_algo (written_then_deleted 2)) ''A'' = Some f \<and>
      frequency s' ''A'' = Some ((f + 1) div 2) \<and> m_decay_counter s' = 0"
    by simp
  from Read_of_deleted_key [OF e1 e3] e2
  have c: "Read ''A'' overfull = (Inl KeyElementOutOfRange, overfull)" by simp
  show ?thesis using h1 h2 h3 h4 g1 g2 g3 g4 e1 e2 e3 a b c by blast
qed

end
